theory Spec2Isabelle
  imports Complex_Main "HOL-Library.Char_ord" "HOL-Library.List_Lexorder"
begin

section \<open>The frame extractor of app.py\<close>

text \<open>
  The development embeds \<^verbatim>\<open>extract_frames\<close> of \<^verbatim>\<open>src/app.py\<close>. The function talks to
  three collaborators: the decoder (\<^verbatim>\<open>cv2.VideoCapture\<close>), the file system
  (\<^verbatim>\<open>os.makedirs\<close>) and the image writer (\<^verbatim>\<open>cv2.imwrite\<close>). What they answer is a
  parameter of the model (the record \<open>world\<close>); what the function does to them is
  recorded in an explicit state that is passed through and returned.
\<close>

subsection \<open>Python values\<close>

text \<open>
  Exceptions are values. \<^verbatim>\<open>ValueError\<close> carries its message, since the source raises it
  twice with two messages and \<^verbatim>\<open>int()\<close> raises it with a third. \<open>OSError\<close> stands for
  what \<^verbatim>\<open>os.makedirs\<close> raises and \<open>CvError\<close> for \<^verbatim>\<open>cv2.error\<close>.
\<close>

datatype error =
    ValueError string
  | ZeroDivisionError
  | OverflowError
  | OSError
  | CvError

text \<open>Line 24 and line 28 of the source: the two errors the function raises itself.\<close>

definition UnreadableSource :: error where
  "UnreadableSource = ValueError ''Could not open the video file.''"

definition UnknownFrameRate :: error where
  "UnknownFrameRate = ValueError ''Unable to read FPS from the video (file may be corrupt).''"

text \<open>
  \<^verbatim>\<open>cap.get(cv2.CAP_PROP_FPS)\<close> is a Python float, an IEEE 754 double. A finite double
  is taken as the rational number it denotes; the three special values are kept, since
  the source treats them differently from numbers. (Both zeros are the number 0: the
  source never tells them apart.)
\<close>

datatype pyfloat = Finite rat | PosInf | NegInf | NaN

text \<open>\<^verbatim>\<open>fps == 0\<close>: true of both zeros, false of NaN and of the infinities.\<close>

definition py_eq_zero :: "pyfloat \<Rightarrow> bool" where
  "py_eq_zero x = (x = Finite 0)"

text \<open>
  Rounding a rational number to a double, to nearest and ties to even. \<open>ilog2 n\<close> is
  the position of the leading bit of \<open>n\<close>, and \<open>floor_log2 a\<close> the exponent \<open>l\<close> with
  \<open>2 ^ l \<le> a < 2 ^ (l + 1)\<close> for a positive \<open>a\<close>.
\<close>

fun ilog2 :: "nat \<Rightarrow> nat" where
  "ilog2 n = (if n < 2 then 0 else Suc (ilog2 (n div 2)))"

declare ilog2.simps [simp del]

definition floor_log2 :: "rat \<Rightarrow> int" where
  "floor_log2 a =
     (let (p, q) = quotient_of a;
          l = int (ilog2 (nat p)) - int (ilog2 (nat q))
      in if 2 powi l \<le> a then l else l - 1)"

definition round_half_even :: "rat \<Rightarrow> int" where
  "round_half_even s =
     (let f = \<lfloor>s\<rfloor>; r = s - of_int f
      in if r < 1 / 2 then f else if 1 / 2 < r then f + 1 else if even f then f else f + 1)"

text \<open>
  A double has 53 significant bits, and its last bit weighs at least \<open>2 ^ -1074\<close>
  (below \<open>2 ^ -1022\<close> the numbers are subnormal).
\<close>

definition ulp_exponent :: "rat \<Rightarrow> int" where
  "ulp_exponent a = max (floor_log2 a - 52) (- 1074)"

definition round_pos :: "rat \<Rightarrow> rat" where
  "round_pos a = of_int (round_half_even (a / 2 powi ulp_exponent a)) * 2 powi ulp_exponent a"

definition round_double :: "rat \<Rightarrow> rat" where
  "round_double x = (if x = 0 then 0 else if 0 < x then round_pos x else - round_pos (- x))"

text \<open>The finite doubles: the numbers that rounding leaves alone, below \<open>2 ^ 1024\<close>.\<close>

definition is_double :: "rat \<Rightarrow> bool" where
  "is_double x \<longleftrightarrow> round_double x = x \<and> \<bar>x\<bar> < 2 ^ 1024"

text \<open>The largest finite double.\<close>

definition DBL_MAX :: rat where
  "DBL_MAX = (2 ^ 53 - 1) * 2 ^ 971"

text \<open>
  The conversion of a Python int to a float, which \<^verbatim>\<open>x / n\<close> applies to \<open>n\<close> first: the
  nearest double, and \<^verbatim>\<open>OverflowError\<close> (int too large to convert to float) when that is
  beyond the finite doubles.
\<close>

definition py_float_of_int :: "int \<Rightarrow> error + rat" where
  "py_float_of_int n =
     (let r = round_double (of_int n)
      in if 2 ^ 1024 \<le> \<bar>r\<bar> then Inl OverflowError else Inr r)"

text \<open>The rounded result of an operation on doubles: a quotient too large is an infinity.\<close>

definition to_float :: "rat \<Rightarrow> pyfloat" where
  "to_float q =
     (let d = round_double q
      in if 2 ^ 1024 \<le> d then PosInf else if d \<le> - (2 ^ 1024) then NegInf else Finite d)"

text \<open>
  \<^verbatim>\<open>x / n\<close> for a float \<open>x\<close> and an int \<open>n\<close>: the int is converted first, a zero divisor
  raises whatever \<open>x\<close> is, and the quotient of two finite doubles is rounded.
\<close>

definition py_truediv :: "pyfloat \<Rightarrow> int \<Rightarrow> error + pyfloat" where
  "py_truediv x n =
     (case py_float_of_int n of
        Inl e \<Rightarrow> Inl e
      | Inr b \<Rightarrow>
          if b = 0 then Inl ZeroDivisionError
          else Inr (case x of
                      Finite r \<Rightarrow> to_float (r / b)
                    | PosInf \<Rightarrow> (if 0 < b then PosInf else NegInf)
                    | NegInf \<Rightarrow> (if 0 < b then NegInf else PosInf)
                    | NaN \<Rightarrow> NaN))"

text \<open>\<^verbatim>\<open>int(x)\<close> truncates towards zero; it raises on NaN and on an infinity.\<close>

definition py_int :: "pyfloat \<Rightarrow> error + int" where
  "py_int x =
     (case x of
        Finite r \<Rightarrow> Inr (if r < 0 then \<lceil>r\<rceil> else \<lfloor>r\<rfloor>)
      | PosInf \<Rightarrow> Inl OverflowError
      | NegInf \<Rightarrow> Inl OverflowError
      | NaN \<Rightarrow> Inl (ValueError ''cannot convert float NaN to integer''))"

subsection \<open>File names\<close>

definition digit_char :: "nat \<Rightarrow> char" where
  "digit_char d = char_of (48 + d)"

text \<open>The decimal digits of a natural number, most significant first.\<close>

fun dec :: "nat \<Rightarrow> string" where
  "dec n = (if n < 10 then [digit_char n] else dec (n div 10) @ [digit_char (n mod 10)])"

declare dec.simps [simp del]

definition zfill :: "nat \<Rightarrow> string \<Rightarrow> string" where
  "zfill w s = replicate (w - length s) (CHR ''0'') @ s"

text \<open>
  The format specification \<^verbatim>\<open>{:04d}\<close>: at least four characters, padded with zeros
  after the sign.
\<close>

definition format_04d :: "int \<Rightarrow> string" where
  "format_04d n =
     (if n < 0 then CHR ''-'' # zfill 3 (dec (nat (- n))) else zfill 4 (dec (nat n)))"

text \<open>Line 42: \<^verbatim>\<open>f"frame_{saved_idx:04d}.jpg"\<close>.\<close>

definition frame_name :: "int \<Rightarrow> string" where
  "frame_name saved_idx = ''frame_'' @ format_04d saved_idx @ ''.jpg''"

text \<open>\<^verbatim>\<open>os.path.join\<close> of two components, on POSIX.\<close>

definition path_join :: "string \<Rightarrow> string \<Rightarrow> string" where
  "path_join a b =
     (if b \<noteq> [] \<and> hd b = CHR ''/'' then b
      else if a = [] \<or> last a = CHR ''/'' then a @ b
      else a @ ''/'' @ b)"

text \<open>\<^verbatim>\<open>os.path.basename\<close>: what follows the last slash.\<close>

definition basename :: "string \<Rightarrow> string" where
  "basename p = rev (takeWhile (\<lambda>c. c \<noteq> CHR ''/'') (rev p))"

subsection \<open>The collaborators and the state\<close>

text \<open>
  What \<^verbatim>\<open>cv2.VideoCapture(video_path)\<close> gives: whether it opened, the frame rate it
  reports, and the frames \<^verbatim>\<open>cap.read()\<close> delivers before its first failure.
\<close>

record 'img capture =
  isOpened :: bool
  CAP_PROP_FPS :: pyfloat
  frames :: "'img list"

text \<open>
  \<^verbatim>\<open>cv2.imwrite\<close> reports a failed write through its result (\<open>False\<close>); some failures
  raise \<^verbatim>\<open>cv2.error\<close> instead.
\<close>

datatype write_outcome = ReturnsTrue | ReturnsFalse | Raises

record 'img world =
  VideoCapture :: "string \<Rightarrow> 'img capture"
  makedirs_ok :: "string \<Rightarrow> bool"
  imwrite :: "string \<Rightarrow> 'img \<Rightarrow> write_outcome"

datatype handle = NotAcquired | Acquired | Released

text \<open>
  The effects of one call: the state of the source handle, the directories
  \<^verbatim>\<open>os.makedirs\<close> has created, the image files written (in the order of writing)
  and the number of calls of \<^verbatim>\<open>cap.read()\<close>.
\<close>

record 'img state =
  cap :: handle
  dirs :: "string set"
  files :: "(string \<times> 'img) list"
  reads :: nat

subsection \<open>extract_frames\<close>

text \<open>
  Lines 36 to 46, the \<^verbatim>\<open>while True\<close> loop. The list holds the frames still to come;
  when it is empty \<^verbatim>\<open>cap.read()\<close> fails and the loop breaks. The result of
  \<^verbatim>\<open>cv2.imwrite\<close> is discarded by the source, so \<open>saved_idx\<close> advances on \<open>ReturnsFalse\<close>
  as well; an exception leaves the loop and the function.
\<close>

fun read_loop ::
  "'img world \<Rightarrow> string \<Rightarrow> int \<Rightarrow> 'img list \<Rightarrow> int \<Rightarrow> int \<Rightarrow> 'img state
     \<Rightarrow> (error + int) \<times> 'img state" where
  "read_loop w output_folder frame_interval [] frame_idx saved_idx s =
     (Inr saved_idx, s\<lparr>reads := Suc (reads s)\<rparr>)"
| "read_loop w output_folder frame_interval (frame # rest) frame_idx saved_idx s =
     (let s1 = s\<lparr>reads := Suc (reads s)\<rparr> in
      if frame_idx mod frame_interval = 0 then
        (let frame_path = path_join output_folder (frame_name saved_idx) in
         case imwrite w frame_path frame of
           Raises \<Rightarrow> (Inl CvError, s1)
         | ReturnsFalse \<Rightarrow>
             read_loop w output_folder frame_interval rest (frame_idx + 1) (saved_idx + 1) s1
         | ReturnsTrue \<Rightarrow>
             read_loop w output_folder frame_interval rest (frame_idx + 1) (saved_idx + 1)
               (s1\<lparr>files := files s1 @ [(frame_path, frame)]\<rparr>))
      else read_loop w output_folder frame_interval rest (frame_idx + 1) saved_idx s1)"

text \<open>Line 31: \<^verbatim>\<open>max(int(fps / frames_per_second), 1)\<close>.\<close>

definition frame_interval_of :: "pyfloat \<Rightarrow> int \<Rightarrow> error + int" where
  "frame_interval_of fps frames_per_second =
     (case py_truediv fps frames_per_second of
        Inl e \<Rightarrow> Inl e
      | Inr q \<Rightarrow> (case py_int q of Inl e \<Rightarrow> Inl e | Inr n \<Rightarrow> Inr (max n 1)))"

text \<open>
  Lines 17 to 49. Every \<^verbatim>\<open>raise\<close> returns the state reached so far; only the normal
  path reaches \<^verbatim>\<open>cap.release()\<close> on line 48.
\<close>

definition extract_frames ::
  "'img world \<Rightarrow> string \<Rightarrow> string \<Rightarrow> int \<Rightarrow> 'img state \<Rightarrow> (error + int) \<times> 'img state" where
  "extract_frames w video_path output_folder frames_per_second s =
     (let c = VideoCapture w video_path in
      if \<not> isOpened c then (Inl UnreadableSource, s)
      else
        let s1 = s\<lparr>cap := Acquired\<rparr>;
            fps = CAP_PROP_FPS c in
        if py_eq_zero fps then (Inl UnknownFrameRate, s1)
        else
          (case frame_interval_of fps frames_per_second of
             Inl e \<Rightarrow> (Inl e, s1)
           | Inr frame_interval \<Rightarrow>
               if \<not> makedirs_ok w output_folder then (Inl OSError, s1)
               else
                 let s2 = s1\<lparr>dirs := insert output_folder (dirs s1)\<rparr>;
                     (r, s3) = read_loop w output_folder frame_interval (frames c) 0 0 s2
                 in (case r of
                       Inl e \<Rightarrow> (Inl e, s3)
                     | Inr saved_idx \<Rightarrow> (Inr saved_idx, s3\<lparr>cap := Released\<rparr>))))"

text \<open>The state before a call: no handle, nothing read.\<close>

definition fresh :: "string set \<Rightarrow> (string \<times> 'img) list \<Rightarrow> 'img state" where
  "fresh ds fs = \<lparr>cap = NotAcquired, dirs = ds, files = fs, reads = 0\<rparr>"

subsection \<open>Auxiliary functions of the proofs\<close>

text \<open>
  The frames the loop keeps, as a function of the stride and of the read-position of
  the first frame of the list.
\<close>

fun select :: "int \<Rightarrow> int \<Rightarrow> 'a list \<Rightarrow> 'a list" where
  "select k frame_idx [] = []"
| "select k frame_idx (x # xs) =
     (if frame_idx mod k = 0 then x # select k (frame_idx + 1) xs
      else select k (frame_idx + 1) xs)"

text \<open>
  The files that end up on disk when the frames \<open>ys\<close> are handed to \<^verbatim>\<open>cv2.imwrite\<close> one
  after the other, the first under the index \<open>saved_idx\<close>.
\<close>

fun saved :: "'img world \<Rightarrow> string \<Rightarrow> int \<Rightarrow> 'img list \<Rightarrow> (string \<times> 'img) list" where
  "saved w output_folder saved_idx [] = []"
| "saved w output_folder saved_idx (y # ys) =
     (if imwrite w (path_join output_folder (frame_name saved_idx)) y = ReturnsTrue
      then [(path_join output_folder (frame_name saved_idx), y)] else [])
     @ saved w output_folder (saved_idx + 1) ys"

subsection \<open>Sample sources\<close>

text \<open>
  A source that opens, reports the rate \<open>fps\<close> and holds \<open>n\<close> frames, the frame at
  read-position \<open>i\<close> being the number \<open>i\<close>; every directory can be created and every
  write ends as \<open>outcome\<close> says.
\<close>

definition sample_world :: "pyfloat \<Rightarrow> nat \<Rightarrow> write_outcome \<Rightarrow> nat world" where
  "sample_world fps n outcome =
     \<lparr>VideoCapture = (\<lambda>p. \<lparr>isOpened = True, CAP_PROP_FPS = fps, frames = [0..<n]\<rparr>),
      makedirs_ok = (\<lambda>p. True),
      imwrite = (\<lambda>p f. outcome)\<rparr>"

text \<open>A path that is no video: the capture does not open.\<close>

definition unreadable_world :: "nat world" where
  "unreadable_world =
     \<lparr>VideoCapture = (\<lambda>p. \<lparr>isOpened = False, CAP_PROP_FPS = Finite 0, frames = []\<rparr>),
      makedirs_ok = (\<lambda>p. True),
      imwrite = (\<lambda>p f. ReturnsTrue)\<rparr>"

section \<open>Properties\<close>

subsection \<open>Rounding to a double\<close>

lemma ilog2_bounds: "0 < n \<Longrightarrow> 2 ^ ilog2 n \<le> n \<and> n < 2 ^ Suc (ilog2 n)"
proof (induction n rule: ilog2.induct)
  case (1 n)
  show ?case
  proof (cases "n < 2")
    case True
    then show ?thesis using 1(2) by (simp add: ilog2.simps [of n])
  next
    case False
    then have "0 < n div 2" by simp
    from 1(1) [OF False this] have "2 ^ ilog2 (n div 2) \<le> n div 2" "n div 2 < 2 ^ Suc (ilog2 (n div 2))"
      by simp_all
    then show ?thesis using False by (simp add: ilog2.simps [of n]) linarith
  qed
qed

lemma floor_log2_bounds:
  assumes "0 < a"
  shows "2 powi floor_log2 a \<le> a" and "a < 2 powi (floor_log2 a + 1)"
proof -
  obtain p q where pq: "quotient_of a = (p, q)" by (cases "quotient_of a")
  have q: "0 < q" using quotient_of_denom_pos [OF pq] .
  have a: "a = of_int p / of_int q" using quotient_of_div [OF pq] .
  have p: "0 < p" using assms q unfolding a by (simp add: zero_less_divide_iff)
  define lp lq where "lp = ilog2 (nat p)" and "lq = ilog2 (nat q)"
  have bp: "2 ^ lp \<le> nat p" "nat p < 2 ^ Suc lp"
    using ilog2_bounds [of "nat p"] p by (simp_all add: lp_def)
  have bq: "2 ^ lq \<le> nat q" "nat q < 2 ^ Suc lq"
    using ilog2_bounds [of "nat q"] q by (simp_all add: lq_def)
  have "(of_nat (2 ^ lp) :: rat) \<le> of_nat (nat p)" "(of_nat (nat p) :: rat) < of_nat (2 ^ Suc lp)"
    using bp by (simp_all only: of_nat_le_iff of_nat_less_iff)
  then have rp: "(2::rat) ^ lp \<le> of_int p" "of_int p < (2::rat) ^ Suc lp"
    using p by simp_all
  have "(of_nat (2 ^ lq) :: rat) \<le> of_nat (nat q)" "(of_nat (nat q) :: rat) < of_nat (2 ^ Suc lq)"
    using bq by (simp_all only: of_nat_le_iff of_nat_less_iff)
  then have rq: "(2::rat) ^ lq \<le> of_int q" "of_int q < (2::rat) ^ Suc lq"
    using q by simp_all
  define l where "l = int lp - int lq"
  have l1: "(2::rat) powi (l - 1) = 2 ^ lp / 2 ^ Suc lq"
  proof -
    have e: "l - 1 = int lp - int (Suc lq)" by (simp add: l_def)
    have "(2::rat) powi (l - 1) = 2 powi (int lp - int (Suc lq))" by (simp only: e)
    also have "\<dots> = 2 powi int lp / 2 powi int (Suc lq)" by (rule power_int_diff) simp
    finally show ?thesis by (simp only: power_int_of_nat)
  qed
  have l2: "(2::rat) powi (l + 1) = 2 ^ Suc lp / 2 ^ lq"
  proof -
    have e: "l + 1 = int (Suc lp) - int lq" by (simp add: l_def)
    have "(2::rat) powi (l + 1) = 2 powi (int (Suc lp) - int lq)" by (simp only: e)
    also have "\<dots> = 2 powi int (Suc lp) / 2 powi int lq" by (rule power_int_diff) simp
    finally show ?thesis by (simp only: power_int_of_nat)
  qed
  have lo: "2 powi (l - 1) \<le> a"
    unfolding l1 a using rp(1) rq(2) p q by (intro frac_le) simp_all
  have hi: "a < 2 powi (l + 1)"
    unfolding l2 a using rp(2) rq(1) p q by (intro frac_less) simp_all
  have fl: "floor_log2 a = (if 2 powi l \<le> a then l else l - 1)"
    by (simp add: floor_log2_def pq l_def lp_def lq_def)
  show "2 powi floor_log2 a \<le> a" using lo by (simp add: fl)
  show "a < 2 powi (floor_log2 a + 1)" using hi by (auto simp: fl)
qed


lemma pow2_mono: "m \<le> n \<Longrightarrow> (2::rat) powi m \<le> 2 powi n"
  by (rule power_int_increasing) simp_all

lemma pow2_strict_mono: "m < n \<Longrightarrow> (2::rat) powi m < 2 powi n"
  by (rule power_int_strict_increasing) simp_all

lemma pow2_le_imp_less:
  assumes "(2::rat) powi m \<le> a" and "a < 2 powi n"
  shows "m < n"
proof (rule ccontr)
  assume "\<not> m < n"
  then have "(2::rat) powi n \<le> 2 powi m" by (intro pow2_mono) simp
  then show False using assms by linarith
qed

lemma floor_log2_eq:
  assumes "2 powi l \<le> a" and "a < 2 powi (l + 1)"
  shows "floor_log2 a = l"
proof -
  have "0 < a" using assms(1) zero_less_power_int [of "2::rat" l] by linarith
  note b = floor_log2_bounds [OF this]
  have "l < floor_log2 a + 1" using assms(1) b(2) by (rule pow2_le_imp_less)
  moreover have "floor_log2 a < l + 1" using b(1) assms(2) by (rule pow2_le_imp_less)
  ultimately show ?thesis by simp
qed

lemma round_half_even_nearest:
  "\<bar>of_int (round_half_even s) - s\<bar> \<le> \<bar>of_int j - s\<bar>"
proof -
  define f where "f = \<lfloor>s\<rfloor>"
  define r where "r = s - of_int f"
  have r: "0 \<le> r" "r < 1" unfolding r_def f_def by linarith+
  have m: "\<bar>of_int (round_half_even s) - s\<bar> \<le> r" "\<bar>of_int (round_half_even s) - s\<bar> \<le> 1 - r"
    using r by (auto simp: round_half_even_def Let_def f_def [symmetric] r_def [symmetric])
       (simp_all add: r_def)
  show ?thesis
  proof (cases "j \<le> f")
    case True
    then have "(of_int j :: rat) \<le> of_int f" by simp
    then have "r \<le> \<bar>of_int j - s\<bar>" unfolding r_def by linarith
    then show ?thesis using m(1) by linarith
  next
    case False
    then have "f + 1 \<le> j" by simp
    then have "(of_int f :: rat) + 1 \<le> of_int j" by (metis of_int_1 of_int_add of_int_le_iff)
    then have "1 - r \<le> \<bar>of_int j - s\<bar>" unfolding r_def by linarith
    then show ?thesis using m(2) by linarith
  qed
qed


lemma round_pos_nearest:
  assumes "0 < a" and "0 \<le> j" and "j \<le> 2 ^ 53" and "- 1074 \<le> e'"
  shows "\<bar>round_pos a - a\<bar> \<le> \<bar>of_int j * 2 powi e' - a\<bar>"
proof -
  define e where "e = ulp_exponent a"
  define P :: rat where "P = 2 powi e"
  define s where "s = a / P"
  define m where "m = round_half_even s"
  have P: "0 < P" by (simp add: P_def)
  have a: "s * P = a" using P by (simp add: s_def)
  have rp: "round_pos a = of_int m * P"
    by (simp add: round_pos_def m_def s_def P_def e_def)
  have near: "\<bar>of_int m - s\<bar> * P \<le> \<bar>of_int J - s\<bar> * P" for J
    using round_half_even_nearest [of s J] P by (simp add: m_def)
  have lhs: "\<bar>round_pos a - a\<bar> = \<bar>of_int m - s\<bar> * P"
  proof -
    have "round_pos a - a = (of_int m - s) * P" by (simp add: rp left_diff_distrib a)
    then show ?thesis using P by (simp add: abs_mult)
  qed
  show ?thesis
  proof (cases "e \<le> e'")
    case True
    define J where "J = j * 2 ^ nat (e' - e)"
    have "(2::rat) powi e' = 2 powi (e' - e) * 2 powi e"
      using power_int_add [of "2::rat" "e' - e" e] by simp
    also have "(2::rat) powi (e' - e) = 2 ^ nat (e' - e)"
      using True by (simp add: power_int_def)
    finally have "of_int j * 2 powi e' = of_int J * P"
      by (simp add: J_def P_def)
    then have "of_int j * 2 powi e' - a = (of_int J - s) * P"
      by (simp add: left_diff_distrib a)
    then have "\<bar>of_int j * 2 powi e' - a\<bar> = \<bar>of_int J - s\<bar> * P"
      using P by (simp add: abs_mult)
    then show ?thesis using near [of J] lhs by simp
  next
    case False
    then have e': "e' \<le> e - 1" by simp
    then have "- 1074 < e" using assms(4) by simp
    then have e: "e = floor_log2 a - 52"
      by (simp add: e_def ulp_exponent_def max_def split: if_splits)
    have "(2::rat) powi (e + 52) \<le> a"
      using floor_log2_bounds(1) [OF assms(1)] by (simp add: e)
    moreover have "(2::rat) powi (e + 52) = 2 ^ 52 * P"
      using power_int_add [of "2::rat" 52 e] by (simp add: P_def add.commute)
    ultimately have big: "2 ^ 52 * P \<le> a" by simp
    have "of_int j * (2::rat) powi e' \<le> 2 ^ 53 * 2 powi e'"
      using assms(3) by (intro mult_right_mono) simp_all
    also have "\<dots> \<le> 2 ^ 53 * 2 powi (e - 1)"
      using e' by (intro mult_left_mono pow2_mono) simp_all
    also have "\<dots> = 2 ^ 52 * P"
      using power_int_add [of "2::rat" "e - 1" 1] by (simp add: P_def)
    finally have d: "of_int j * 2 powi e' \<le> 2 ^ 52 * P" .
    have "\<bar>of_int m - s\<bar> * P \<le> \<bar>of_int (2 ^ 52) - s\<bar> * P" by (rule near)
    also have "\<dots> = \<bar>2 ^ 52 * P - a\<bar>"
    proof -
      have "2 ^ 52 * P - a = (of_int (2 ^ 52) - s) * P" by (simp add: left_diff_distrib a)
      then show ?thesis using P by (simp add: abs_mult)
    qed
    also have "\<dots> \<le> \<bar>of_int j * 2 powi e' - a\<bar>" using big d by linarith
    finally show ?thesis using lhs by simp
  qed
qed


lemma round_pos_nonneg: "0 < a \<Longrightarrow> 0 \<le> round_pos a"
proof -
  assume "0 < a"
  then have "0 \<le> a / 2 powi ulp_exponent a" by simp
  then have "0 \<le> \<lfloor>a / 2 powi ulp_exponent a\<rfloor>" by simp
  then have "0 \<le> round_half_even (a / 2 powi ulp_exponent a)"
    by (simp add: round_half_even_def Let_def)
  then show ?thesis by (simp add: round_pos_def)
qed

lemma round_pos_fixed:
  assumes "0 < a" and "a = of_int j * 2 powi e'" and "0 \<le> j" and "j \<le> 2 ^ 53" and "- 1074 \<le> e'"
  shows "round_pos a = a"
  using round_pos_nearest [OF assms(1,3,4,5)] assms(2) by simp

lemma round_pos_lower:
  assumes "0 < a" and "of_int j * 2 powi e' \<le> a" and "0 \<le> j" and "j \<le> 2 ^ 53" and "- 1074 \<le> e'"
  shows "of_int j * 2 powi e' \<le> round_pos a"
  using round_pos_nearest [OF assms(1,3,4,5)] assms(2) by linarith

lemma round_pos_upper:
  assumes "0 < a" and "a \<le> of_int j * 2 powi e'" and "0 \<le> j" and "j \<le> 2 ^ 53" and "- 1074 \<le> e'"
  shows "round_pos a \<le> of_int j * 2 powi e'"
  using round_pos_nearest [OF assms(1,3,4,5)] assms(2) by linarith

lemma round_pos_int:
  assumes "0 < j" and "j \<le> 2 ^ 53"
  shows "round_pos (of_int j) = of_int j"
  using round_pos_fixed [of "of_int j" j 0] assms by simp

lemma round_pos_ge_int:
  assumes "0 < a" and "of_int j \<le> a" and "0 \<le> j" and "j \<le> 2 ^ 53"
  shows "of_int j \<le> round_pos a"
  using round_pos_lower [of a j 0] assms by simp

lemma round_pos_le_int:
  assumes "0 < a" and "a \<le> of_int j" and "0 \<le> j" and "j \<le> 2 ^ 53"
  shows "round_pos a \<le> of_int j"
  using round_pos_upper [of a j 0] assms by simp


lemma floor_log2_int_nonneg:
  assumes "1 \<le> n"
  shows "0 \<le> floor_log2 (of_int n)"
proof -
  have a: "(0::rat) < of_int n" using assms by simp
  have "(2::rat) powi 0 \<le> of_int n" using assms by simp
  then have "0 < floor_log2 (of_int n) + 1"
    using floor_log2_bounds(2) [OF a] by (rule pow2_le_imp_less)
  then show ?thesis by simp
qed

lemma floor_round_quotient:
  assumes dbl: "round_pos R = R" and R: "0 < R" "R < 2 ^ 53" and T: "1 \<le> T" "of_int T \<le> R"
  shows "\<lfloor>round_pos (R / of_int T)\<rfloor> = \<lfloor>R / of_int T\<rfloor>"
proof -
  define q where "q = R / of_int T"
  define n where "n = \<lfloor>q\<rfloor>"
  define y where "y = n + 1"
  define k where "k = floor_log2 (of_int n)"
  define b where "b = floor_log2 (of_int T)"
  have Tpos: "(0::rat) < of_int T" using T(1) by simp
  have q1: "1 \<le> q" using T(2) Tpos by (simp add: q_def)
  have qpos: "0 < q" using q1 by simp
  have n1: "1 \<le> n" using q1 by (simp add: n_def le_floor_iff)
  have nq: "of_int n \<le> q" "q < of_int y" unfolding n_def y_def by linarith+
  have qR: "q \<le> R"
  proof -
    have "R / of_int T \<le> R / 1" using T(1) R(1) by (intro divide_left_mono) simp_all
    then show ?thesis by (simp add: q_def)
  qed
  have nR: "of_int n * of_int T \<le> R" using nq(1) Tpos by (simp add: q_def pos_le_divide_eq)
  have yR: "R < of_int y * of_int T" using nq(2) Tpos by (simp add: q_def pos_divide_less_eq)
  have npos: "(0::rat) < of_int n" using n1 by simp
  have k0: "0 \<le> k" unfolding k_def using n1 by (rule floor_log2_int_nonneg)
  have b0: "0 \<le> b" unfolding b_def using T(1) by (rule floor_log2_int_nonneg)
  have kb: "2 powi k \<le> (of_int n :: rat)" "(of_int n :: rat) < 2 powi (k + 1)"
    unfolding k_def using floor_log2_bounds [OF npos] by simp_all
  have bb: "2 powi b \<le> (of_int T :: rat)" "(of_int T :: rat) < 2 powi (b + 1)"
    unfolding b_def using floor_log2_bounds [OF Tpos] by simp_all
  have "(2::rat) powi (k + b) = 2 powi k * 2 powi b" by (simp add: power_int_add)
  also have "\<dots> \<le> of_int n * of_int T"
    using kb(1) bb(1) n1 by (intro mult_mono) simp_all
  finally have low: "(2::rat) powi (k + b) \<le> R" using nR by simp
  have "R < (2::rat) powi 53" using R(2) by simp
  with low have "k + b < 53" by (rule pow2_le_imp_less)
  then have k52: "k \<le> 52" using b0 by simp
  define e where "e = ulp_exponent R"
  define l where "l = floor_log2 R"
  have lb: "2 powi l \<le> R" "R < 2 powi (l + 1)"
    unfolding l_def using floor_log2_bounds [OF R(1)] by simp_all
  have "k + b < l + 1" using low lb(2) by (rule pow2_le_imp_less)
  moreover have "l < 53" using lb(1) \<open>R < 2 powi 53\<close> by (rule pow2_le_imp_less)
  ultimately have e: "e = l - 52" "e \<le> 0" "k + b - 52 \<le> e"
    using k0 b0 by (simp_all add: e_def ulp_exponent_def l_def [symmetric])
  define m where "m = round_half_even (R / 2 powi e)"
  have Rm: "R = of_int m * 2 powi e"
    using dbl by (simp add: round_pos_def m_def e_def)
  define N where "N = y * T * 2 ^ nat (- e) - m"
  have pe: "(2::rat) ^ nat (- e) * 2 powi e = 1"
  proof -
    have "(2::rat) ^ nat (- e) = 2 powi (- e)" using e(2) by (simp add: power_int_def)
    then show ?thesis using power_int_add [of "2::rat" "- e" e] by simp
  qed
  have "of_int N * 2 powi e = of_int y * of_int T * ((2::rat) ^ nat (- e) * 2 powi e) - of_int m * 2 powi e"
    by (simp add: N_def algebra_simps)
  then have diff: "of_int y * of_int T - R = of_int N * 2 powi e"
    by (simp add: pe Rm [symmetric])
  have "0 < of_int N * (2::rat) powi e" using yR diff by simp
  moreover have "0 < (2::rat) powi e" by simp
  ultimately have "(0::rat) < of_int N" by (simp only: zero_less_mult_pos2)
  then have "0 < N" by simp
  then have "(1::rat) \<le> of_int N" by simp
  then have "1 * 2 powi e \<le> of_int N * (2::rat) powi e"
    by (intro mult_right_mono) simp_all
  then have "2 powi e \<le> of_int N * (2::rat) powi e"
    by (simp only: mult_1)
  then have gap: "2 powi (k + b - 52) \<le> of_int y * of_int T - R"
    using pow2_mono [OF e(3)] diff by linarith
  define h :: rat where "h = 2 powi (k - 53)"
  have hpos: "0 < h" by (simp add: h_def)
  have "h * of_int T < h * 2 powi (b + 1)"
    using bb(2) hpos by (intro mult_strict_left_mono)
  also have "\<dots> = 2 powi (k + b - 52)"
    using power_int_add [of "2::rat" "k - 53" "b + 1"] by (simp add: h_def algebra_simps)
  finally have "h * of_int T < of_int y * of_int T - R" using gap by simp
  then have "h * of_int T < (of_int y - q) * of_int T"
    using Tpos by (simp add: q_def left_diff_distrib)
  then have far: "h < of_int y - q" using Tpos by (simp add: mult_less_cancel_right_pos)
  define j where "j = y * 2 ^ nat (52 - k) - 1"
  define G :: rat where "G = 2 powi (k - 52)"
  have pk: "(2::rat) ^ nat (52 - k) * G = 1"
  proof -
    have "(2::rat) ^ nat (52 - k) = 2 powi (52 - k)" using k52 by (simp add: power_int_def)
    then show ?thesis using power_int_add [of "2::rat" "52 - k" "k - 52"] by (simp add: G_def)
  qed
  have G2h: "G = 2 * h"
    using power_int_add [of "2::rat" "k - 53" 1] by (simp add: h_def G_def)
  have "of_int j * G = of_int y * ((2::rat) ^ nat (52 - k) * G) - G"
    by (simp add: j_def algebra_simps)
  also have "\<dots> = of_int y * 1 - G" by (simp only: pk)
  finally have "of_int j * G = of_int y - 2 * h" by (simp add: G2h)
  then have dj: "of_int j * 2 powi (k - 52) = of_int y - 2 * h" by (simp only: G_def)
  have "(of_int n :: rat) < 2 ^ nat (k + 1)" using kb(2) k0 by (simp add: power_int_def)
  then have "n < 2 ^ nat (k + 1)" by simp
  then have ylek: "y \<le> 2 ^ nat (k + 1)" by (simp add: y_def)
  have "y * 2 ^ nat (52 - k) \<le> 2 ^ nat (k + 1) * 2 ^ nat (52 - k)"
    using ylek by (intro mult_right_mono) simp_all
  also have "\<dots> = (2::int) ^ 53"
  proof -
    have "nat (k + 1) + nat (52 - k) = 53" using k0 k52 by simp
    then show ?thesis by (simp flip: power_add)
  qed
  finally have j53: "j \<le> 2 ^ 53" by (simp add: j_def)
  have "1 \<le> y * 2 ^ nat (52 - k)"
  proof -
    have "1 * 1 \<le> y * (2::int) ^ nat (52 - k)"
      using n1 by (intro mult_mono) (simp_all add: y_def)
    then show ?thesis by simp
  qed
  then have j0: "0 \<le> j" by (simp add: j_def)
  have kexp: "- 1074 \<le> k - 52" using k0 by simp
  note near = round_pos_nearest [OF qpos j0 j53 kexp, unfolded dj]
  have ne: "round_pos q \<noteq> of_int y"
  proof
    assume "round_pos q = of_int y"
    then have "\<bar>of_int y - q\<bar> \<le> \<bar>of_int y - 2 * h - q\<bar>" using near by simp
    then show False using far hpos by linarith
  qed
  have nn: "n \<le> 2 ^ 53"
  proof -
    have "(of_int n :: rat) < 2 ^ 53" using nq(1) qR R(2) by linarith
    then show ?thesis by simp
  qed
  have yy: "y \<le> 2 ^ 53"
  proof -
    have "(of_int n :: rat) < 2 ^ 53" using nq(1) qR R(2) by linarith
    then have "n < 2 ^ 53" by simp
    then show ?thesis by (simp add: y_def)
  qed
  have lo: "of_int n \<le> round_pos q"
    using qpos nq(1) n1 nn by (intro round_pos_ge_int) simp_all
  have hi: "round_pos q \<le> of_int y"
    using qpos nq(2) n1 yy by (intro round_pos_le_int) (simp_all add: y_def)
  have "round_pos q < of_int n + 1" using hi ne by (simp add: y_def)
  then have "\<lfloor>round_pos q\<rfloor> = n" using lo by (simp add: floor_unique)
  then show ?thesis by (simp add: q_def n_def)
qed

subsection \<open>The stride\<close>

lemma double_grid:
  assumes "round_pos R = R" and "0 < R"
  obtains j e' where "R = of_int j * 2 powi e'" and "0 \<le> j" and "j \<le> 2 ^ 53" and "- 1074 \<le> e'"
proof -
  define e where "e = ulp_exponent R"
  define j where "j = round_half_even (R / 2 powi e)"
  have R: "R = of_int j * 2 powi e"
    using assms(1) by (simp add: round_pos_def j_def e_def)
  have e: "floor_log2 R - 52 \<le> e" "- 1074 \<le> e"
    by (simp_all add: e_def ulp_exponent_def)
  have "0 < of_int j * (2::rat) powi e" using assms(2) R by simp
  moreover have "0 < (2::rat) powi e" by simp
  ultimately have "(0::rat) < of_int j" by (simp only: zero_less_mult_pos2)
  then have j0: "0 \<le> j" by simp
  have "R < 2 powi (floor_log2 R + 1)" using floor_log2_bounds(2) [OF assms(2)] .
  also have "\<dots> \<le> 2 powi (e + 53)" using e(1) by (intro pow2_mono) simp
  also have "\<dots> = 2 ^ 53 * 2 powi e"
    using power_int_add [of "2::rat" 53 e] by (simp add: add.commute)
  finally have "of_int j * (2::rat) powi e < 2 ^ 53 * 2 powi e" using R by simp
  then have "(of_int j :: rat) < 2 ^ 53" by (simp add: mult_less_cancel_right_pos)
  then have j1: "j \<le> 2 ^ 53" by simp
  show ?thesis using R j0 j1 e(2) by (rule that)
qed

lemma round_pos_le_double:
  assumes "0 < a" and "a \<le> R" and "round_pos R = R"
  shows "round_pos a \<le> R"
proof -
  have "0 < R" using assms(1,2) by simp
  from double_grid [OF assms(3) this] obtain j e'
    where g: "R = of_int j * 2 powi e'" "0 \<le> j" "j \<le> 2 ^ 53" "- 1074 \<le> e'" .
  show ?thesis using round_pos_upper [OF assms(1) _ g(2,3,4)] assms(2) g(1) by simp
qed

lemma round_pos_ge_double:
  assumes "0 < R" and "R \<le> a" and "round_pos R = R"
  shows "R \<le> round_pos a"
proof -
  have a: "0 < a" using assms(1,2) by simp
  from double_grid [OF assms(3,1)] obtain j e'
    where g: "R = of_int j * 2 powi e'" "0 \<le> j" "j \<le> 2 ^ 53" "- 1074 \<le> e'" .
  show ?thesis using round_pos_lower [OF a _ g(2,3,4)] assms(2) g(1) by simp
qed

lemma DBL_MAX_less: "DBL_MAX < 2 ^ 1024"
  by (simp add: DBL_MAX_def)

text \<open>The conversion of a target rate that is at least 1 and at most the largest double.\<close>

lemma py_float_of_int_pos:
  assumes "1 \<le> T" and "of_int T \<le> DBL_MAX"
  obtains b where "py_float_of_int T = Inr b" and "1 \<le> b" and "b = round_pos (of_int T)"
proof -
  have T: "(0::rat) < of_int T" using assms(1) by simp
  have lo: "1 \<le> round_pos (of_int T)"
    using round_pos_ge_int [of "of_int T" 1] assms(1) by simp
  have "round_pos (of_int T) \<le> of_int (2 ^ 53 - 1) * 2 powi 971"
    using assms(2) T by (intro round_pos_upper) (simp_all add: DBL_MAX_def)
  then have "round_pos (of_int T) \<le> DBL_MAX" by (simp add: DBL_MAX_def)
  then have hi: "round_pos (of_int T) < 2 ^ 1024" using DBL_MAX_less by linarith
  have "py_float_of_int T = Inr (round_pos (of_int T))"
    using T lo hi by (simp add: py_float_of_int_def round_double_def Let_def)
  then show ?thesis using lo by (rule that) simp
qed

lemma py_float_of_int_small:
  assumes "1 \<le> T" and "T \<le> 2 ^ 53"
  shows "py_float_of_int T = Inr (of_int T)"
proof -
  have "round_pos (of_int T) = of_int T" using assms by (intro round_pos_int) simp_all
  moreover have "(of_int T :: rat) < 2 ^ 1024"
  proof -
    have "(of_int T :: rat) \<le> 2 ^ 53" using assms(2) by simp
    then show ?thesis by simp
  qed
  ultimately show ?thesis
    using assms(1) by (simp add: py_float_of_int_def round_double_def Let_def)
qed

lemma is_double_pos: "is_double R \<Longrightarrow> 0 < R \<Longrightarrow> round_pos R = R"
  by (simp add: is_double_def round_double_def)

text \<open>A target rate at or above the rate: the quotient rounds into \<open>[0, 1]\<close>.\<close>

lemma frame_interval_of_le:
  assumes "is_double R" and "0 < R" and "R \<le> of_int T" and "of_int T \<le> DBL_MAX"
  shows "frame_interval_of (Finite R) T = Inr 1"
proof -
  have dbl: "round_pos R = R" using assms(1,2) by (rule is_double_pos)
  have T1: "1 \<le> T" using assms(2,3) by linarith
  from py_float_of_int_pos [OF T1 assms(4)] obtain b
    where b: "py_float_of_int T = Inr b" "1 \<le> b" "b = round_pos (of_int T)" .
  have Rb: "R \<le> b" unfolding b(3) using assms(2,3) dbl by (rule round_pos_ge_double)
  define q where "q = R / b"
  have q: "0 < q" "q \<le> 1" using assms(2) b(2) Rb by (simp_all add: q_def)
  have d0: "0 \<le> round_pos q" using q(1) by (rule round_pos_nonneg)
  have d1: "round_pos q \<le> 1" using round_pos_le_int [of q 1] q by simp
  have "to_float q = Finite (round_pos q)"
    using q(1) d0 d1 by (simp add: to_float_def round_double_def Let_def)
  then have "py_truediv (Finite R) T = Inr (Finite (round_pos q))"
    using b(1,2) by (simp add: py_truediv_def q_def)
  moreover have "\<lfloor>round_pos q\<rfloor> \<le> 1" using d1 by (simp add: floor_le_iff)
  ultimately show ?thesis
    using d0 by (simp add: frame_interval_of_def py_int_def not_less [symmetric])
qed

text \<open>A target rate at or below the rate: the rounded quotient has the floor of the exact one.\<close>

lemma frame_interval_of_ge:
  assumes "is_double R" and "R < 2 ^ 53" and "1 \<le> T" and "of_int T \<le> R"
  shows "frame_interval_of (Finite R) T = Inr (max \<lfloor>R / of_int T\<rfloor> 1)"
proof -
  have R: "0 < R" using assms(3,4) by linarith
  have dbl: "round_pos R = R" using assms(1) R by (rule is_double_pos)
  have "(of_int T :: rat) \<le> 2 ^ 53" using assms(2,4) by linarith
  then have "T \<le> 2 ^ 53" by simp
  then have b: "py_float_of_int T = Inr (of_int T)" using assms(3) by (intro py_float_of_int_small)
  define q where "q = R / of_int T"
  have q: "0 < q" "1 \<le> q" using R assms(3,4) by (simp_all add: q_def)
  have fl: "\<lfloor>round_pos q\<rfloor> = \<lfloor>q\<rfloor>"
    unfolding q_def using dbl R assms(2,3,4) by (rule floor_round_quotient)
  have lo: "1 \<le> round_pos q" using round_pos_ge_int [of q 1] q by simp
  have "round_pos q \<le> R"
  proof -
    have "R / of_int T \<le> R / 1" using assms(3) R by (intro divide_left_mono) simp_all
    then have "q \<le> R" by (simp add: q_def)
    with q(1) show ?thesis using dbl by (rule round_pos_le_double)
  qed
  moreover have "(2::rat) ^ 53 < 2 ^ 1024" by simp
  ultimately have hi: "round_pos q < 2 ^ 1024" using assms(2) by linarith
  have "to_float q = Finite (round_pos q)"
    using q(1) lo hi by (simp add: to_float_def round_double_def Let_def)
  then have "py_truediv (Finite R) T = Inr (Finite (round_pos q))"
    using b assms(3) by (simp add: py_truediv_def q_def)
  then show ?thesis
    using lo fl by (simp add: frame_interval_of_def py_int_def not_less [symmetric] q_def)
qed

lemma frame_interval_of_pos:
  assumes "is_double R" and "0 < R" and "R < 2 ^ 53" and "1 \<le> T" and "of_int T \<le> DBL_MAX"
  shows "frame_interval_of (Finite R) T = Inr (max \<lfloor>R / of_int T\<rfloor> 1)"
proof (cases "of_int T \<le> R")
  case True
  with assms(1,3,4) show ?thesis by (rule frame_interval_of_ge)
next
  case False
  then have RT: "R \<le> of_int T" "R < of_int T" by simp_all
  have "0 < R / of_int T" "R / of_int T < 1" using assms(2,4) RT(2) by simp_all
  then have "\<lfloor>R / of_int T\<rfloor> = 0" by (simp add: floor_eq_iff)
  then show ?thesis using frame_interval_of_le [OF assms(1,2) RT(1) assms(5)] by simp
qed


lemma frame_interval_of_neg:
  assumes "is_double R" and "R < 0" and "1 \<le> T" and "of_int T \<le> DBL_MAX"
  shows "frame_interval_of (Finite R) T = Inr 1"
proof -
  have dbl: "round_pos (- R) = - R" and small: "- R < 2 ^ 1024"
    using assms(1,2) by (simp_all add: is_double_def round_double_def)
  from py_float_of_int_pos [OF assms(3,4)] obtain b
    where b: "py_float_of_int T = Inr b" "1 \<le> b" "b = round_pos (of_int T)" .
  define q where "q = - R / b"
  have bpos: "0 < b" using b(2) by simp
  have q: "0 < q" using assms(2) bpos by (simp add: q_def divide_neg_pos)
  have "- R / b \<le> - R / 1" using assms(2) b(2) by (intro divide_left_mono) simp_all
  then have "q \<le> - R" by (simp add: q_def)
  with q have "round_pos q \<le> - R" using dbl by (rule round_pos_le_double)
  then have hi: "round_pos q < 2 ^ 1024" using small by linarith
  have lo: "0 \<le> round_pos q" using q by (rule round_pos_nonneg)
  have "R / b = - q" by (simp add: q_def)
  then have "to_float (R / b) = Finite (- round_pos q)"
    using q lo hi by (simp add: to_float_def round_double_def Let_def)
  then have "py_truediv (Finite R) T = Inr (Finite (- round_pos q))"
    using b(1,2) by (simp add: py_truediv_def)
  moreover have "\<lceil>- round_pos q\<rceil> \<le> 0" using lo by (simp add: ceiling_le_iff)
  moreover have "\<lfloor>- round_pos q\<rfloor> \<le> 0" using lo by (simp add: floor_le_iff)
  ultimately show ?thesis
    by (simp add: frame_interval_of_def py_int_def)
qed

text \<open>On a finite rate and a target rate from 1 to the largest double the stride exists.\<close>

lemma frame_interval_of_finite:
  assumes "is_double R" and "1 \<le> T" and "of_int T \<le> DBL_MAX"
  shows "\<exists>k. frame_interval_of (Finite R) T = Inr k \<and> 1 \<le> k"
proof -
  consider "R < 0" | "R = 0" | "0 < R" by linarith
  then show ?thesis
  proof cases
    case 1
    then show ?thesis using frame_interval_of_neg [OF assms(1) _ assms(2,3)] by simp
  next
    case 2
    from py_float_of_int_pos [OF assms(2,3)] obtain b
      where b: "py_float_of_int T = Inr b" "1 \<le> b" "b = round_pos (of_int T)" .
    have "py_truediv (Finite R) T = Inr (Finite 0)"
      using b(1,2) 2 by (simp add: py_truediv_def to_float_def round_double_def)
    then show ?thesis by (simp add: frame_interval_of_def py_int_def)
  next
    case 3
    have dbl: "round_pos R = R" using assms(1) 3 by (rule is_double_pos)
    have small: "R < 2 ^ 1024" using assms(1) 3 by (simp add: is_double_def)
    from py_float_of_int_pos [OF assms(2,3)] obtain b
      where b: "py_float_of_int T = Inr b" "1 \<le> b" "b = round_pos (of_int T)" .
    define q where "q = R / b"
    have q: "0 < q" using 3 b(2) by (simp add: q_def)
    have "R / b \<le> R / 1" using 3 b(2) by (intro divide_left_mono) simp_all
    then have "q \<le> R" by (simp add: q_def)
    with q have "round_pos q \<le> R" using dbl by (rule round_pos_le_double)
    then have hi: "round_pos q < 2 ^ 1024" using small by linarith
    have lo: "0 \<le> round_pos q" using q by (rule round_pos_nonneg)
    have "to_float q = Finite (round_pos q)"
      using q lo hi by (simp add: to_float_def round_double_def Let_def)
    then have "py_truediv (Finite R) T = Inr (Finite (round_pos q))"
      using b(1,2) by (simp add: py_truediv_def q_def)
    then show ?thesis by (simp add: frame_interval_of_def py_int_def)
  qed
qed

lemma is_double_int:
  assumes "0 < j" and "j \<le> 2 ^ 53"
  shows "is_double (of_int j)"
proof -
  have "round_pos (of_int j) = of_int j" using assms by (rule round_pos_int)
  moreover have "(of_int j :: rat) \<le> 2 ^ 53" using assms(2) by simp
  then have "(of_int j :: rat) < 2 ^ 1024" by simp
  ultimately show ?thesis using assms(1) by (simp add: is_double_def round_double_def)
qed

lemma is_double_neg: "is_double x \<Longrightarrow> is_double (- x)"
  by (auto simp: is_double_def round_double_def)

lemma round_pos_eval:
  assumes "2 powi l \<le> a" and "a < 2 powi (l + 1)" and "- 1022 \<le> l"
  shows "round_pos a = of_int (round_half_even (a / 2 powi (l - 52))) * 2 powi (l - 52)"
proof -
  have "floor_log2 a = l" using assms(1,2) by (rule floor_log2_eq)
  then have "ulp_exponent a = l - 52" using assms(3) by (simp add: ulp_exponent_def)
  then show ?thesis by (simp add: round_pos_def)
qed

lemma is_double_grid:
  assumes "0 < j" and "j \<le> 2 ^ 53" and "- 1074 \<le> e" and "of_int j * 2 powi e < (2::rat) ^ 1024"
  shows "is_double (of_int j * 2 powi e)"
proof -
  have p: "(0::rat) < of_int j * 2 powi e" using assms(1) by simp
  have "round_pos (of_int j * 2 powi e) = of_int j * 2 powi e"
    using p _ _ assms(2,3) by (rule round_pos_fixed) (use assms(1) in simp_all)
  then show ?thesis using p assms(4) by (simp add: is_double_def round_double_def)
qed

lemma is_double_30: "is_double 30" and is_double_24: "is_double 24"
  using is_double_int [of 30] is_double_int [of 24] by simp_all

lemma frame_interval_30_1: "frame_interval_of (Finite 30) 1 = Inr 30"
  using frame_interval_of_pos [OF is_double_30, of 1] by (simp add: DBL_MAX_def)

lemma frame_interval_30_30: "frame_interval_of (Finite 30) 30 = Inr 1"
  using frame_interval_of_pos [OF is_double_30, of 30] by (simp add: DBL_MAX_def)

text \<open>
  Claim C2, as amended. For a finite rate \<open>R > 0\<close> and a target rate \<open>T\<close> from 1 to the
  largest double the stride computation does not fail and its result is at least 1, so
  \<open>frame_idx mod frame_interval\<close> never divides by zero; for a rate below \<open>2 ^ 53\<close> the
  stride is \<open>floor (R / T)\<close> clamped to a minimum of 1.
\<close>

theorem frame_interval_clamped:
  assumes "is_double R" and "0 < R" and "1 \<le> T" and "of_int T \<le> DBL_MAX"
  shows "\<exists>k. frame_interval_of (Finite R) T = Inr k \<and> 1 \<le> k \<and> k \<noteq> 0
           \<and> (R < 2 ^ 53 \<longrightarrow> k = max \<lfloor>R / of_int T\<rfloor> 1)"
proof -
  from frame_interval_of_finite [OF assms(1,3,4)]
  obtain k where k: "frame_interval_of (Finite R) T = Inr k" "1 \<le> k" by blast
  have "k = max \<lfloor>R / of_int T\<rfloor> 1" if "R < 2 ^ 53"
    using frame_interval_of_pos [OF assms(1,2) that assms(3,4)] k(1) by simp
  then show ?thesis using k by auto
qed

theorem frame_interval_clamped_witness:
  "frame_interval_of (Finite 30) 1 = Inr 30 \<and> frame_interval_of (Finite (239 / 2)) 4 = Inr 29"
proof -
  have "is_double (of_int 239 * 2 powi (- 1))"
    by (rule is_double_grid) simp_all
  then have d: "is_double (239 / 2)" by simp
  have f: "\<lfloor>(239::rat) / 8\<rfloor> = 29" by (simp add: floor_eq_iff)
  show ?thesis
    using frame_interval_clamped [OF is_double_30, of 1] frame_interval_clamped [OF d, of 4]
    by (simp add: DBL_MAX_def f)
qed

text \<open>
  The claim as stated takes the stride to be \<open>floor (R / T)\<close> for every rate. The
  quotient is a double: at the rate \<open>2 ^ 54 + 4\<close> and the target rate 3 it rounds up
  to the next integer, and the stride is one more than \<open>floor (R / T)\<close>.
\<close>

theorem frame_interval_rounds_up:
  "is_double (2 ^ 54 + 4)
   \<and> frame_interval_of (Finite (2 ^ 54 + 4)) 3 = Inr 6004799503160663
   \<and> max \<lfloor>(2 ^ 54 + 4 :: rat) / 3\<rfloor> 1 = 6004799503160662"
proof -
  have "is_double (of_int (2 ^ 52 + 1) * 2 powi 2)"
    by (rule is_double_grid) simp_all
  then have d: "is_double (2 ^ 54 + 4)" by simp
  have b: "py_float_of_int 3 = Inr 3" using py_float_of_int_small [of 3] by simp
  have f: "\<lfloor>(18014398509481988::rat) / 3\<rfloor> = 6004799503160662" by (simp add: floor_eq_iff)
  have "round_half_even (18014398509481988 / 3) = 6004799503160663"
    by (simp add: round_half_even_def Let_def f)
  then have r: "round_pos (18014398509481988 / 3) = 6004799503160663"
    using round_pos_eval [of 52 "18014398509481988 / 3"] by simp
  have "to_float (18014398509481988 / 3) = Finite 6004799503160663"
    by (simp add: to_float_def round_double_def r)
  then have "py_truediv (Finite (2 ^ 54 + 4)) 3 = Inr (Finite 6004799503160663)"
    by (simp add: py_truediv_def b)
  then have "frame_interval_of (Finite (2 ^ 54 + 4)) 3 = Inr 6004799503160663"
    by (simp add: frame_interval_of_def py_int_def)
  then show ?thesis using d f by simp
qed

subsection \<open>Strides of particular rates\<close>

lemma py_float_of_int_tie: "py_float_of_int (2 ^ 53 + 1) = Inr (2 ^ 53)"
proof -
  have f: "\<lfloor>(9007199254740993::rat) / 2\<rfloor> = 4503599627370496" by (simp add: floor_eq_iff)
  have "round_half_even (9007199254740993 / 2) = 4503599627370496"
    by (simp add: round_half_even_def Let_def f)
  then have "round_pos 9007199254740993 = 9007199254740992"
    using round_pos_eval [of 53 9007199254740993] by simp
  then show ?thesis by (simp add: py_float_of_int_def round_double_def)
qed

lemma frame_interval_big: "frame_interval_of (Finite (2 ^ 54)) (2 ^ 53 + 1) = Inr 2"
proof -
  have "round_pos (of_int 2) = of_int 2" by (rule round_pos_int) simp_all
  then have "to_float 2 = Finite 2" by (simp add: to_float_def round_double_def)
  then have "py_truediv (Finite (2 ^ 54)) (2 ^ 53 + 1) = Inr (Finite 2)"
    by (simp add: py_truediv_def py_float_of_int_tie [simplified])
  then show ?thesis by (simp add: frame_interval_of_def py_int_def)
qed

lemma py_float_of_int_overflow:
  assumes "2 ^ 1024 \<le> T"
  shows "py_float_of_int T = Inl OverflowError"
proof -
  have T: "(2::rat) ^ 1024 \<le> of_int T"
    using assms by (metis of_int_le_iff of_int_numeral of_int_power)
  have "(0::rat) < 2 ^ 1024" by simp
  with T have p: "(0::rat) < of_int T" by linarith
  have "of_int 1 * 2 powi 1024 \<le> round_pos (of_int T)"
    using p _ _ _ _ by (rule round_pos_lower) (use T in simp_all)
  then have "(2::rat) ^ 1024 \<le> round_pos (of_int T)" by simp
  then show ?thesis using p by (simp add: py_float_of_int_def round_double_def)
qed

lemma frame_interval_of_overflow:
  assumes "2 ^ 1024 \<le> T"
  shows "frame_interval_of x T = Inl OverflowError"
  by (simp add: frame_interval_of_def py_truediv_def py_float_of_int_overflow [OF assms])


lemma frame_interval_neg_30: "frame_interval_of (Finite (- 30)) 1 = Inr 1"
  using frame_interval_of_neg [OF is_double_neg [OF is_double_30], of 1] by (simp add: DBL_MAX_def)

lemma frame_interval_NaN: "frame_interval_of NaN 1 = Inl (ValueError ''cannot convert float NaN to integer'')"
  using py_float_of_int_small [of 1]
  by (simp add: frame_interval_of_def py_truediv_def py_int_def)

lemma frame_interval_24_30: "frame_interval_of (Finite 24) 30 = Inr 1"
  using frame_interval_of_le [OF is_double_24, of 30] by (simp add: DBL_MAX_def)

subsection \<open>A zero target rate\<close>

text \<open>
  Claim C10. With \<open>frames_per_second = 0\<close>, on a source that opens and reports a
  nonzero rate, the call fails with \<open>ZeroDivisionError\<close> in the stride computation:
  the handle is acquired, no directory has been created, no frame has been read and no
  file has been written.
\<close>

theorem extract_frames_zero_rate:
  assumes "isOpened (VideoCapture w video_path)"
    and "CAP_PROP_FPS (VideoCapture w video_path) \<noteq> Finite 0"
  shows "extract_frames w video_path output_folder 0 s = (Inl ZeroDivisionError, s\<lparr>cap := Acquired\<rparr>)
    \<and> dirs (snd (extract_frames w video_path output_folder 0 s)) = dirs s
    \<and> files (snd (extract_frames w video_path output_folder 0 s)) = files s
    \<and> reads (snd (extract_frames w video_path output_folder 0 s)) = reads s"
  using assms
  by (simp add: extract_frames_def py_eq_zero_def frame_interval_of_def py_truediv_def
      py_float_of_int_def round_double_def)

theorem extract_frames_zero_rate_witness:
  "extract_frames (sample_world (Finite 30) 90 ReturnsTrue) ''v.mp4'' ''out'' 0 (fresh {} [])
     = (Inl ZeroDivisionError, \<lparr>cap = Acquired, dirs = {}, files = [], reads = 0\<rparr>)"
  using extract_frames_zero_rate [of "sample_world (Finite 30) 90 ReturnsTrue" "''v.mp4''" "''out''" "fresh {} []"]
  by (simp add: sample_world_def fresh_def)

subsection \<open>The read loop\<close>

text \<open>
  When no write raises, the loop reads every frame, returns the number of frames it
  kept and leaves on disk the kept frames whose write succeeded.
\<close>

lemma read_loop_spec:
  assumes "\<forall>p f. imwrite w p f \<noteq> Raises"
  shows "read_loop w out k xs fi si s =
     (Inr (si + int (length (select k fi xs))),
      s\<lparr>reads := Suc (reads s + length xs),
        files := files s @ saved w out si (select k fi xs)\<rparr>)"
proof (induction xs arbitrary: fi si s)
  case Nil
  show ?case by simp
next
  case (Cons x xs)
  show ?case
  proof (cases "fi mod k = 0")
    case False
    then show ?thesis by (simp add: Cons.IH)
  next
    case True
    show ?thesis
    proof (cases "imwrite w (path_join out (frame_name si)) x")
      case ReturnsTrue
      then show ?thesis using True by (simp add: Cons.IH)
    next
      case ReturnsFalse
      then show ?thesis using True by (simp add: Cons.IH)
    next
      case Raises
      then show ?thesis using assms by simp
    qed
  qed
qed

lemma saved_all:
  assumes "\<forall>p f. imwrite w p f = ReturnsTrue"
  shows "saved w out si ys =
     zip (map (\<lambda>j. path_join out (frame_name (si + int j))) [0..<length ys]) ys"
proof (induction ys arbitrary: si)
  case Nil
  show ?case by simp
next
  case (Cons y ys)
  have u: "[0..<length (y # ys)] = 0 # map Suc [0..<length ys]"
    by (simp add: upt_conv_Cons map_Suc_upt del: upt_Suc)
  have a: "\<And>j. si + int (Suc j) = si + 1 + int j" by simp
  show ?case unfolding u
    using assms by (simp add: Cons.IH o_def a del: upt_Suc of_nat_Suc)
qed

lemma select_nth:
  "select k fi xs = map (nth xs) (filter (\<lambda>i. (fi + int i) mod k = 0) [0..<length xs])"
proof (induction xs arbitrary: fi)
  case Nil
  then show ?case by simp
next
  case (Cons x xs)
  have u: "[0..<length (x # xs)] = 0 # map Suc [0..<length xs]"
    by (simp add: upt_conv_Cons map_Suc_upt del: upt_Suc)
  have a: "\<And>i. fi + int (Suc i) = fi + 1 + int i" by simp
  show ?case unfolding u
    by (simp add: Cons.IH filter_map o_def a del: upt_Suc of_nat_Suc)
qed

subsection \<open>Counting the multiples of the stride\<close>

lemma neg_div_neg:
  fixes k :: int assumes "0 < k"
  shows "- ((- n) div k) = n div k + (if n mod k = 0 then 0 else 1)"
  using assms by (simp add: zdiv_zminus1_eq_if)

lemma succ_div:
  fixes k :: int assumes "0 < k"
  shows "(n + 1) div k = n div k + (if (n + 1) mod k = 0 then 1 else 0)"
proof -
  define q where "q = n div k"
  define r where "r = n mod k"
  have n: "n = k * q + r" and r: "0 \<le> r" "r < k"
    using assms by (simp_all add: q_def r_def)
  show ?thesis
  proof (cases "r + 1 = k")
    case True
    have e: "n + 1 = k * (q + 1) + 0" using n True by (simp add: algebra_simps)
    have b: "(0::int) \<le> 0" "0 < k" using assms by simp_all
    have "(n + 1) div k = q + 1" using int_div_pos_eq[OF e b] .
    moreover have "(n + 1) mod k = 0" using int_mod_pos_eq[OF e b] .
    ultimately show ?thesis by (simp add: q_def)
  next
    case False
    have e: "n + 1 = k * q + (r + 1)" using n by simp
    have b: "0 \<le> r + 1" "r + 1 < k" using r False by auto
    have "(n + 1) div k = q" using int_div_pos_eq[OF e b] .
    moreover have "(n + 1) mod k = r + 1" using int_mod_pos_eq[OF e b] .
    ultimately show ?thesis using r by (simp add: q_def)
  qed
qed

lemma ceil_step:
  fixes k :: int assumes "0 < k"
  shows "- ((- (n + 1)) div k) = - ((- n) div k) + (if n mod k = 0 then 1 else 0)"
  unfolding neg_div_neg[OF assms] succ_div[OF assms] by simp

lemma count_multiples:
  fixes k :: int
  assumes "0 < k"
  shows "int (length (filter (\<lambda>i. int i mod k = 0) [0..<n])) = - ((- int n) div k)"
proof (induction n)
  case 0
  then show ?case using assms by simp
next
  case (Suc n)
  have "- (- int (Suc n) div k) = - ((- int n) div k) + (if int n mod k = 0 then 1 else 0)"
    using ceil_step[OF assms, of "int n"] by (simp add: algebra_simps)
  then show ?case using Suc by simp
qed

lemma count_multiples_ceiling:
  fixes k :: int
  assumes "0 < k"
  shows "int (length (filter (\<lambda>i. int i mod k = 0) [0..<n])) = \<lceil>rat_of_nat n / rat_of_int k\<rceil>"
proof -
  have "\<lceil>rat_of_nat n / rat_of_int k\<rceil> = \<lceil>rat_of_int (int n) / rat_of_int k\<rceil>" by simp
  also have "\<dots> = - ((- int n) div k)" by (rule ceiling_divide_eq_div)
  finally show ?thesis using count_multiples[OF assms, of n] by simp
qed

subsection \<open>Successful runs\<close>

text \<open>
  The run on a source that opens with a finite nonzero rate, when the stride
  computation succeeds, the directory can be created and no write raises.
\<close>

lemma extract_frames_run:
  assumes op: "isOpened (VideoCapture w vp)"
    and fps: "CAP_PROP_FPS (VideoCapture w vp) \<noteq> Finite 0"
    and k: "frame_interval_of (CAP_PROP_FPS (VideoCapture w vp)) T = Inr k"
    and mk: "makedirs_ok w out"
    and wr: "\<forall>p f. imwrite w p f \<noteq> Raises"
  shows "extract_frames w vp out T s =
     (Inr (int (length (select k 0 (frames (VideoCapture w vp))))),
      s\<lparr>cap := Released, dirs := insert out (dirs s),
        reads := Suc (reads s + length (frames (VideoCapture w vp))),
        files := files s @ saved w out 0 (select k 0 (frames (VideoCapture w vp)))\<rparr>)"
  using op fps k mk
  by (simp add: extract_frames_def Let_def py_eq_zero_def read_loop_spec [OF wr])

text \<open>
  Claim C1, as amended. On a source that opens with a finite rate \<open>R > 0\<close> and holds
  \<open>total_frames\<close> frames, with a target rate \<open>T\<close> from 1 to the largest double, a call in
  which the directory can be created and no write raises returns
  \<open>ceiling (total_frames / stride)\<close>, which is 0 for an empty source, where \<open>stride\<close> is the
  stride of line 31; for a rate below \<open>2 ^ 53\<close> it is \<open>max (floor (R / T)) 1\<close>. When every
  write succeeds, the files written are the frames at the read-positions \<open>i\<close> with
  \<open>i mod stride = 0\<close>, in increasing order, under the names of the indices 0, 1, 2 and
  so on.
\<close>

theorem extract_frames_count:
  assumes "isOpened (VideoCapture w video_path)"
    and "CAP_PROP_FPS (VideoCapture w video_path) = Finite R"
    and "is_double R" and "0 < R" and "1 \<le> T" and "of_int T \<le> DBL_MAX"
    and "makedirs_ok w output_folder"
    and "\<forall>p f. imwrite w p f \<noteq> Raises"
  defines "total_frames \<equiv> length (frames (VideoCapture w video_path))"
  shows "\<exists>stride. frame_interval_of (Finite R) T = Inr stride \<and> 1 \<le> stride
    \<and> (R < 2 ^ 53 \<longrightarrow> stride = max \<lfloor>R / of_int T\<rfloor> 1)
    \<and> fst (extract_frames w video_path output_folder T s)
         = Inr (if 0 < total_frames then \<lceil>rat_of_nat total_frames / rat_of_int stride\<rceil> else 0)
    \<and> ((\<forall>p f. imwrite w p f = ReturnsTrue) \<longrightarrow>
         files (snd (extract_frames w video_path output_folder T s))
           = files s @ zip
               (map (\<lambda>j. path_join output_folder (frame_name (int j)))
                  [0..<length (filter (\<lambda>i. int i mod stride = 0) [0..<total_frames])])
               (map (nth (frames (VideoCapture w video_path)))
                  (filter (\<lambda>i. int i mod stride = 0) [0..<total_frames])))"
proof -
  from frame_interval_of_finite [OF assms(3,5,6)]
  obtain stride where k: "frame_interval_of (Finite R) T = Inr stride" and pos: "1 \<le> stride"
    by blast
  define kept where "kept = filter (\<lambda>i. int i mod stride = 0) [0..<total_frames]"
  have st: "stride = max \<lfloor>R / of_int T\<rfloor> 1" if "R < 2 ^ 53"
    using frame_interval_of_pos [OF assms(3,4) that assms(5,6)] k by simp
  have R: "CAP_PROP_FPS (VideoCapture w video_path) \<noteq> Finite 0" using assms(2,4) by simp
  note run = extract_frames_run [OF assms(1) R k [folded assms(2)] assms(7) assms(8), of s]
  have sel: "select stride 0 (frames (VideoCapture w video_path))
      = map (nth (frames (VideoCapture w video_path))) kept"
    by (simp add: select_nth kept_def total_frames_def)
  have "0 < stride" using pos by simp
  then have len: "int (length kept) = \<lceil>rat_of_nat total_frames / rat_of_int stride\<rceil>"
    unfolding kept_def by (rule count_multiples_ceiling)
  have c: "fst (extract_frames w video_path output_folder T s)
       = Inr (if 0 < total_frames then \<lceil>rat_of_nat total_frames / rat_of_int stride\<rceil> else 0)"
    using len by (simp add: run sel)
  have f: "files (snd (extract_frames w video_path output_folder T s))
           = files s @ zip (map (\<lambda>j. path_join output_folder (frame_name (int j))) [0..<length kept])
                           (map (nth (frames (VideoCapture w video_path))) kept)"
    if "\<forall>p f. imwrite w p f = ReturnsTrue"
    by (simp add: run sel saved_all [OF that])
  show ?thesis using k pos st c f unfolding kept_def by blast
qed

text \<open>
  The scenario of the specification: rate 30, target rate 1 and 90 frames give the
  read-positions 0, 30 and 60.
\<close>

theorem extract_frames_count_witness:
  "fst (extract_frames (sample_world (Finite 30) 90 ReturnsTrue) ''v.mp4'' ''out'' 1 (fresh {} [])) = Inr 3
   \<and> files (snd (extract_frames (sample_world (Finite 30) 90 ReturnsTrue) ''v.mp4'' ''out'' 1 (fresh {} [])))
       = [(''out/frame_0000.jpg'', 0), (''out/frame_0001.jpg'', 30), (''out/frame_0002.jpg'', 60)]"
proof -
  have kept: "filter (\<lambda>i. int i mod 30 = 0) [0..<90] = [0, 30, 60]"
    by code_simp
  have names: "path_join ''out'' (frame_name 0) = ''out/frame_0000.jpg''"
    "path_join ''out'' (frame_name 1) = ''out/frame_0001.jpg''"
    "path_join ''out'' (frame_name 2) = ''out/frame_0002.jpg''"
    by code_simp+
  have m: "(1::rat) \<le> DBL_MAX" by (simp add: DBL_MAX_def)
  show ?thesis
    using extract_frames_count [of "sample_world (Finite 30) 90 ReturnsTrue" "''v.mp4''" 30 1 "''out''" "fresh {} []"]
    by (simp add: sample_world_def fresh_def kept names is_double_30 m frame_interval_30_1)
qed

text \<open>
  The claim as stated takes the stride to be \<open>max (floor (R / T)) 1\<close> for every rate and
  target rate. At the rate \<open>2 ^ 54\<close> and the target rate \<open>2 ^ 53 + 1\<close> that is 1, which
  would save all of three frames. The target rate is converted to the double \<open>2 ^ 53\<close>,
  the stride is 2, and two frames are saved.
\<close>

theorem extract_frames_count_fails:
  "is_double (2 ^ 54)
   \<and> fst (extract_frames (sample_world (Finite (2 ^ 54)) 3 ReturnsTrue) ''v.mp4'' ''out''
         (2 ^ 53 + 1) (fresh {} [])) = Inr 2
   \<and> max \<lfloor>(2 ^ 54 :: rat) / (2 ^ 53 + 1)\<rfloor> 1 = 1
   \<and> \<lceil>(3::rat) / 1\<rceil> = 3"
proof -
  have "is_double (of_int (2 ^ 52) * 2 powi 2)"
    by (rule is_double_grid) simp_all
  then have d: "is_double (2 ^ 54)" by simp
  have "frame_interval_of (Finite (2 ^ 54)) (2 ^ 53 + 1) = Inr 2"
    by (rule frame_interval_big)
  then have "fst (extract_frames (sample_world (Finite (2 ^ 54)) 3 ReturnsTrue) ''v.mp4'' ''out''
         (2 ^ 53 + 1) (fresh {} [])) = Inr 2"
    by (simp add: extract_frames_def sample_world_def fresh_def py_eq_zero_def upt_rec numeral_3_eq_3)
  moreover have "\<lfloor>(18014398509481984 :: rat) / 9007199254740993\<rfloor> = 1"
    by (simp add: floor_eq_iff)
  ultimately show ?thesis using d by simp
qed

subsection \<open>A target rate at or above the nominal rate\<close>

lemma select_one: "select 1 0 xs = xs"
  by (simp add: select_nth map_nth)




subsection \<open>The two errors of the function\<close>

text \<open>The loop fails in one way only: a write that raises.\<close>

lemma read_loop_error:
  "fst (read_loop w out k xs fi si s) = Inl CvError \<or> (\<exists>n. fst (read_loop w out k xs fi si s) = Inr n)"
  by (induction xs arbitrary: fi si s) (simp_all add: Let_def split: write_outcome.splits)

lemma extract_frames_late:
  assumes "isOpened (VideoCapture w vp)"
    and "\<not> py_eq_zero (CAP_PROP_FPS (VideoCapture w vp))"
    and "frame_interval_of (CAP_PROP_FPS (VideoCapture w vp)) T = Inr k"
    and "makedirs_ok w out"
  shows "fst (extract_frames w vp out T s)
     = fst (read_loop w out k (frames (VideoCapture w vp)) 0 0
              (s\<lparr>cap := Acquired, dirs := insert out (dirs s)\<rparr>))"
  using assms
  by (simp add: extract_frames_def Let_def split: prod.splits sum.splits)

text \<open>
  Claim C4. A call that fails with \<open>UnreadableSource\<close> or with \<open>UnknownFrameRate\<close> has
  created no directory, written no file and read no frame: both are raised before
  \<^verbatim>\<open>os.makedirs\<close> and before the loop.
\<close>

theorem extract_frames_error_no_effect:
  assumes "fst (extract_frames w video_path output_folder T s) = Inl UnreadableSource
         \<or> fst (extract_frames w video_path output_folder T s) = Inl UnknownFrameRate"
  shows "dirs (snd (extract_frames w video_path output_folder T s)) = dirs s
    \<and> files (snd (extract_frames w video_path output_folder T s)) = files s
    \<and> reads (snd (extract_frames w video_path output_folder T s)) = reads s"
proof -
  let ?c = "VideoCapture w video_path"
  show ?thesis
  proof (cases "isOpened ?c \<and> \<not> py_eq_zero (CAP_PROP_FPS ?c)")
    case False
    then show ?thesis by (auto simp: extract_frames_def Let_def)
  next
    case go: True
    show ?thesis
    proof (cases "frame_interval_of (CAP_PROP_FPS ?c) T")
      case (Inl e)
      then show ?thesis using go by (simp add: extract_frames_def Let_def)
    next
      case (Inr k)
      show ?thesis
      proof (cases "makedirs_ok w output_folder")
        case False
        then show ?thesis using go Inr by (simp add: extract_frames_def Let_def)
      next
        case True
        have "fst (extract_frames w video_path output_folder T s) = Inl CvError
            \<or> (\<exists>n. fst (extract_frames w video_path output_folder T s) = Inr n)"
          unfolding extract_frames_late[of w video_path T k output_folder s, OF conjunct1[OF go] conjunct2[OF go] Inr True]
          by (rule read_loop_error)
        then have False
          using assms by (auto simp: UnreadableSource_def UnknownFrameRate_def)
        then show ?thesis ..
      qed
    qed
  qed
qed

theorem extract_frames_error_no_effect_witness:
  "dirs (snd (extract_frames unreadable_world ''v.mp4'' ''out'' 1 (fresh {} []))) = {}
   \<and> files (snd (extract_frames unreadable_world ''v.mp4'' ''out'' 1 (fresh {} []))) = []
   \<and> dirs (snd (extract_frames (sample_world (Finite 0) 90 ReturnsTrue) ''v.mp4'' ''out'' 1 (fresh {} []))) = {}
   \<and> files (snd (extract_frames (sample_world (Finite 0) 90 ReturnsTrue) ''v.mp4'' ''out'' 1 (fresh {} []))) = []"
proof -
  have a: "fst (extract_frames unreadable_world ''v.mp4'' ''out'' 1 (fresh {} [])) = Inl UnreadableSource"
    by (simp add: extract_frames_def unreadable_world_def)
  have b: "fst (extract_frames (sample_world (Finite 0) 90 ReturnsTrue) ''v.mp4'' ''out'' 1 (fresh {} []))
      = Inl UnknownFrameRate"
    by (simp add: extract_frames_def sample_world_def py_eq_zero_def)
  show ?thesis
    using extract_frames_error_no_effect [of unreadable_world "''v.mp4''" "''out''" 1 "fresh {} []"]
      extract_frames_error_no_effect [of "sample_world (Finite 0) 90 ReturnsTrue" "''v.mp4''" "''out''" 1 "fresh {} []"]
      a b
    by (simp add: fresh_def)
qed

subsection \<open>Release of the source handle\<close>

text \<open>
  Claim C5 says that the handle of a source that opened is released before the call
  returns, on the error paths as on the normal one. The source releases it on line 48
  only. On a source that opens and reports the rate 0 the call ends with
  \<open>UnknownFrameRate\<close> and the handle still acquired; so does a call whose first write
  raises. The normal path releases it.
\<close>

theorem extract_frames_leaks_handle:
  "extract_frames (sample_world (Finite 0) 90 ReturnsTrue) ''v.mp4'' ''out'' 1 (fresh {} [])
     = (Inl UnknownFrameRate, \<lparr>cap = Acquired, dirs = {}, files = [], reads = 0\<rparr>)
   \<and> extract_frames (sample_world (Finite 30) 1 Raises) ''v.mp4'' ''out'' 1 (fresh {} [])
     = (Inl CvError, \<lparr>cap = Acquired, dirs = {''out''}, files = [], reads = 1\<rparr>)
   \<and> cap (snd (extract_frames (sample_world (Finite 30) 1 ReturnsTrue) ''v.mp4'' ''out'' 1 (fresh {} [])))
     = Released"
  by (simp add: extract_frames_def sample_world_def fresh_def py_eq_zero_def
      frame_interval_30_1)

subsection \<open>Writes that fail\<close>

text \<open>
  Claim C7 says that the count returned never includes a frame whose write did not
  succeed. The source discards the result of \<^verbatim>\<open>cv2.imwrite\<close>: on a source of one frame
  whose write returns \<open>False\<close> the call returns 1 and no file has been written.
\<close>

theorem extract_frames_counts_failed_write:
  "extract_frames (sample_world (Finite 30) 1 ReturnsFalse) ''v.mp4'' ''out'' 1 (fresh {} [])
     = (Inr 1, \<lparr>cap = Released, dirs = {''out''}, files = [], reads = 2\<rparr>)"
  by (simp add: extract_frames_def sample_world_def fresh_def py_eq_zero_def
      frame_interval_30_1)

subsection \<open>Which errors a call can end with\<close>

lemma frame_interval_of_error:
  assumes "frame_interval_of x T = Inl e"
  shows "e = ZeroDivisionError \<or> e = OverflowError
       \<or> e = ValueError ''cannot convert float NaN to integer''"
  using assms
  by (auto simp: frame_interval_of_def py_truediv_def py_float_of_int_def to_float_def py_int_def
      Let_def split: if_splits pyfloat.splits sum.splits)

lemma read_loop_raises:
  assumes "fst (read_loop w out k xs fi si s) = Inl e"
  shows "\<exists>p f. imwrite w p f = Raises"
proof (rule ccontr)
  assume "\<not> (\<exists>p f. imwrite w p f = Raises)"
  then have "\<forall>p f. imwrite w p f \<noteq> Raises" by simp
  from read_loop_spec [OF this] show False using assms by simp
qed

text \<open>
  Claim C3, as amended. A call ends with \<open>UnreadableSource\<close> exactly when the source does
  not open, and with \<open>UnknownFrameRate\<close> exactly when the source opens and reports a rate
  equal to zero: line 27 tests \<^verbatim>\<open>fps == 0\<close> and nothing else. With a finite reported
  rate and a target rate \<open>T\<close> from 1 to the largest double, every other failure is one
  raised by \<^verbatim>\<open>os.makedirs\<close> or by a \<^verbatim>\<open>cv2.imwrite\<close> of the loop; a target rate of
  \<open>2 ^ 1024\<close> or more cannot be converted to a float and line 31 raises
  \<open>OverflowError\<close>. A source that
  reports a negative finite rate is read with stride 1: every frame is kept.
\<close>

theorem extract_frames_errors:
  fixes w :: "'img world"
  shows "(fst (extract_frames w video_path output_folder T s) = Inl UnreadableSource
           \<longleftrightarrow> \<not> isOpened (VideoCapture w video_path))
    \<and> (fst (extract_frames w video_path output_folder T s) = Inl UnknownFrameRate
           \<longleftrightarrow> isOpened (VideoCapture w video_path)
               \<and> CAP_PROP_FPS (VideoCapture w video_path) = Finite 0)
    \<and> (1 \<le> T \<and> of_int T \<le> DBL_MAX
         \<and> (\<exists>R. CAP_PROP_FPS (VideoCapture w video_path) = Finite R \<and> is_double R) \<longrightarrow>
          fst (extract_frames w video_path output_folder T s) = Inl UnreadableSource
        \<or> fst (extract_frames w video_path output_folder T s) = Inl UnknownFrameRate
        \<or> (fst (extract_frames w video_path output_folder T s) = Inl OSError
             \<and> \<not> makedirs_ok w output_folder)
        \<or> (fst (extract_frames w video_path output_folder T s) = Inl CvError
             \<and> makedirs_ok w output_folder \<and> (\<exists>p f. imwrite w p f = Raises))
        \<or> (\<exists>n. fst (extract_frames w video_path output_folder T s) = Inr n))
    \<and> (2 ^ 1024 \<le> T \<and> isOpened (VideoCapture w video_path)
         \<and> CAP_PROP_FPS (VideoCapture w video_path) \<noteq> Finite 0 \<longrightarrow>
          fst (extract_frames w video_path output_folder T s) = Inl OverflowError)
    \<and> (isOpened (VideoCapture w video_path)
         \<and> (\<exists>R. CAP_PROP_FPS (VideoCapture w video_path) = Finite R \<and> is_double R \<and> R < 0)
         \<and> 1 \<le> T \<and> of_int T \<le> DBL_MAX
         \<and> makedirs_ok w output_folder \<and> (\<forall>p f. imwrite w p f \<noteq> Raises) \<longrightarrow>
          fst (extract_frames w video_path output_folder T s)
            = Inr (int (length (frames (VideoCapture w video_path)))))"
proof -
  let ?c = "VideoCapture w video_path"
  let ?r = "fst (extract_frames w video_path output_folder T s)"
  have ne: "UnreadableSource \<noteq> UnknownFrameRate"
    by (simp add: UnreadableSource_def UnknownFrameRate_def)
  have neg: "?r = Inr (int (length (frames ?c)))"
    if "isOpened ?c" and "CAP_PROP_FPS ?c = Finite R" and "is_double R" and "R < 0"
      and "1 \<le> T" and "of_int T \<le> DBL_MAX"
      and "makedirs_ok w output_folder" and "\<forall>p f. imwrite w p f \<noteq> Raises" for R
  proof -
    have k: "frame_interval_of (CAP_PROP_FPS ?c) T = Inr 1"
      unfolding that(2) using that(3,4,5,6) by (rule frame_interval_of_neg)
    have nz: "CAP_PROP_FPS ?c \<noteq> Finite 0" using that(2,4) by simp
    show ?thesis
      by (simp add: extract_frames_run [OF that(1) nz k that(7,8)] select_one)
  qed
  have big: "?r = Inl OverflowError"
    if "2 ^ 1024 \<le> T" and "isOpened ?c" and "CAP_PROP_FPS ?c \<noteq> Finite 0"
  proof -
    have "frame_interval_of (CAP_PROP_FPS ?c) T = Inl OverflowError"
      using that(1) by (rule frame_interval_of_overflow)
    then show ?thesis
      using that(2,3) by (simp add: extract_frames_def Let_def py_eq_zero_def)
  qed
  have main: "(?r = Inl UnreadableSource \<longleftrightarrow> \<not> isOpened ?c)
    \<and> (?r = Inl UnknownFrameRate \<longleftrightarrow> isOpened ?c \<and> CAP_PROP_FPS ?c = Finite 0)
    \<and> (1 \<le> T \<and> of_int T \<le> DBL_MAX \<and> (\<exists>R. CAP_PROP_FPS ?c = Finite R \<and> is_double R) \<longrightarrow>
          ?r = Inl UnreadableSource \<or> ?r = Inl UnknownFrameRate
        \<or> (?r = Inl OSError \<and> \<not> makedirs_ok w output_folder)
        \<or> (?r = Inl CvError \<and> makedirs_ok w output_folder \<and> (\<exists>p f. imwrite w p f = Raises))
        \<or> (\<exists>n. ?r = Inr n))"
  proof (cases "isOpened ?c")
    case False
    then have "?r = Inl UnreadableSource"
      by (simp add: extract_frames_def)
    then show ?thesis using False ne by simp
  next
    case op: True
    show ?thesis
    proof (cases "CAP_PROP_FPS ?c = Finite 0")
      case True
      then have "?r = Inl UnknownFrameRate"
        using op by (simp add: extract_frames_def py_eq_zero_def)
      then show ?thesis using op True ne by simp
    next
      case nz: False
      show ?thesis
      proof (cases "frame_interval_of (CAP_PROP_FPS ?c) T")
        case (Inl e)
        then have r: "?r = Inl e"
          using op nz by (simp add: extract_frames_def Let_def py_eq_zero_def)
        have e: "e \<noteq> UnreadableSource" "e \<noteq> UnknownFrameRate"
          using frame_interval_of_error [OF Inl]
          by (auto simp: UnreadableSource_def UnknownFrameRate_def)
        have "\<not> (1 \<le> T \<and> of_int T \<le> DBL_MAX \<and> (\<exists>R. CAP_PROP_FPS ?c = Finite R \<and> is_double R))"
        proof
          assume a: "1 \<le> T \<and> of_int T \<le> DBL_MAX \<and> (\<exists>R. CAP_PROP_FPS ?c = Finite R \<and> is_double R)"
          then obtain R where R: "CAP_PROP_FPS ?c = Finite R" "is_double R" by blast
          have "1 \<le> T" "of_int T \<le> DBL_MAX" using a by simp_all
          from frame_interval_of_finite [OF R(2) this]
          obtain k where "frame_interval_of (Finite R) T = Inr k" by blast
          then show False using Inl R(1) by simp
        qed
        then show ?thesis using r e op nz by auto
      next
        case (Inr k)
        show ?thesis
        proof (cases "makedirs_ok w output_folder")
          case False
          then have "?r = Inl OSError"
            using op nz Inr by (simp add: extract_frames_def Let_def py_eq_zero_def)
          then show ?thesis
            using op nz False by (simp add: UnreadableSource_def UnknownFrameRate_def)
        next
          case mk: True
          have nz': "\<not> py_eq_zero (CAP_PROP_FPS ?c)"
            using nz by (simp add: py_eq_zero_def)
          note late = extract_frames_late [OF op nz' Inr mk, of s]
          consider "?r = Inl CvError" | n where "?r = Inr n"
            using read_loop_error [of w output_folder k "frames ?c" 0 0
                "s\<lparr>cap := Acquired, dirs := insert output_folder (dirs s)\<rparr>"]
            unfolding late [symmetric] by blast
          then show ?thesis
          proof cases
            case 1
            then have "\<exists>p f. imwrite w p f = Raises"
              unfolding late by (rule read_loop_raises)
            then show ?thesis
              using 1 op nz mk by (simp add: UnreadableSource_def UnknownFrameRate_def)
          next
            case 2
            then show ?thesis using op nz by simp
          qed
        qed
      qed
    qed
  qed
  show ?thesis using main big neg by blast
qed

theorem extract_frames_errors_witness:
  "fst (extract_frames unreadable_world ''v.mp4'' ''out'' 1 (fresh {} [])) = Inl UnreadableSource
   \<and> fst (extract_frames (sample_world (Finite 0) 3 ReturnsTrue) ''v.mp4'' ''out'' 1 (fresh {} []))
       = Inl UnknownFrameRate
   \<and> fst (extract_frames (sample_world (Finite 30) 3 ReturnsTrue) ''v.mp4'' ''out'' 1 (fresh {} []))
       \<noteq> Inl UnknownFrameRate
   \<and> (1::int) \<le> 1 \<and> of_int 1 \<le> DBL_MAX \<and> is_double 30
   \<and> CAP_PROP_FPS (VideoCapture (sample_world (Finite 30) 3 Raises) ''v.mp4'') = Finite 30
   \<and> fst (extract_frames (sample_world (Finite 30) 3 Raises) ''v.mp4'' ''out'' 1 (fresh {} []))
       = Inl CvError
   \<and> fst (extract_frames (sample_world (Finite 30) 3 ReturnsTrue) ''v.mp4'' ''out'' (2 ^ 1024) (fresh {} []))
       = Inl OverflowError
   \<and> is_double (- 30)
   \<and> fst (extract_frames (sample_world (Finite (- 30)) 3 ReturnsTrue) ''v.mp4'' ''out'' 1 (fresh {} []))
       = Inr 3"
proof -
  have r: "fst (extract_frames (sample_world (Finite 30) 3 Raises) ''v.mp4'' ''out'' 1 (fresh {} []))
       = Inl CvError"
    by (simp add: extract_frames_def sample_world_def fresh_def py_eq_zero_def
        frame_interval_30_1 upt_rec numeral_3_eq_3)
  have m: "(1::rat) \<le> DBL_MAX" by (simp add: DBL_MAX_def)
  show ?thesis
    using extract_frames_errors [of unreadable_world "''v.mp4''" "''out''" 1 "fresh {} []"]
      extract_frames_errors [of "sample_world (Finite 0) 3 ReturnsTrue" "''v.mp4''" "''out''" 1 "fresh {} []"]
      extract_frames_errors [of "sample_world (Finite 30) 3 ReturnsTrue" "''v.mp4''" "''out''" 1 "fresh {} []"]
      extract_frames_errors [of "sample_world (Finite 30) 3 Raises" "''v.mp4''" "''out''" 1 "fresh {} []"]
      extract_frames_errors [of "sample_world (Finite 30) 3 ReturnsTrue" "''v.mp4''" "''out''" "2 ^ 1024" "fresh {} []"]
      extract_frames_errors [of "sample_world (Finite (- 30)) 3 ReturnsTrue" "''v.mp4''" "''out''" 1 "fresh {} []"]
      r m is_double_30 is_double_neg [OF is_double_30]
    by (simp add: unreadable_world_def sample_world_def)
qed

text \<open>
  The claim as stated counts a negative rate and NaN among the rates that raise
  \<open>UnknownFrameRate\<close>. A source that opens and reports the rate \<open>-30\<close> is accepted: the
  stride is 1 and the call returns the number of frames. A source that reports NaN
  fails in \<^verbatim>\<open>int()\<close> with another \<^verbatim>\<open>ValueError\<close>, under \<open>T = 1\<close>.
\<close>

theorem unusable_rate_not_reported:
  "isOpened (VideoCapture (sample_world (Finite (- 30)) 3 ReturnsTrue) ''v.mp4'')
   \<and> fst (extract_frames (sample_world (Finite (- 30)) 3 ReturnsTrue) ''v.mp4'' ''out'' 1 (fresh {} []))
       = Inr 3
   \<and> isOpened (VideoCapture (sample_world NaN 3 ReturnsTrue) ''v.mp4'')
   \<and> fst (extract_frames (sample_world NaN 3 ReturnsTrue) ''v.mp4'' ''out'' 1 (fresh {} []))
       = Inl (ValueError ''cannot convert float NaN to integer'')
   \<and> Inl (ValueError ''cannot convert float NaN to integer'') \<noteq> (Inl UnknownFrameRate :: error + int)"
  by (simp add: extract_frames_def sample_world_def fresh_def py_eq_zero_def
      frame_interval_neg_30 frame_interval_NaN UnknownFrameRate_def upt_rec numeral_3_eq_3)

subsection \<open>Digits, names and paths\<close>

lemma of_char_digit_char: "d < 10 \<Longrightarrow> (of_char (digit_char d) :: nat) = 48 + d"
  by (simp add: digit_char_def)

lemma digit_char_less: "a < 10 \<Longrightarrow> b < 10 \<Longrightarrow> digit_char a < digit_char b \<longleftrightarrow> a < b"
  by (simp add: less_char_def of_char_digit_char)

lemma digit_char_eq: "a < 10 \<Longrightarrow> b < 10 \<Longrightarrow> digit_char a = digit_char b \<longleftrightarrow> a = b"
  by (metis of_char_digit_char add_left_cancel)

lemma digit_char_0: "digit_char 0 = CHR ''0''"
  by code_simp

lemma digit_char_no_slash: "d < 10 \<Longrightarrow> digit_char d \<noteq> CHR ''/''"
proof
  assume d: "d < 10" and "digit_char d = CHR ''/''"
  then have "(of_char (digit_char d) :: nat) = of_char (CHR ''/'')" by simp
  then show False using d by (simp add: of_char_digit_char)
qed

lemma dec_small: "n < 10 \<Longrightarrow> dec n = [digit_char n]"
  by (simp add: dec.simps)

lemma dec_step: "10 \<le> n \<Longrightarrow> dec n = dec (n div 10) @ [digit_char (n mod 10)]"
  by (subst dec.simps) simp

lemma dec_no_slash: "CHR ''/'' \<notin> set (dec n)"
proof (induction n rule: dec.induct)
  case (1 n)
  show ?case
  proof (cases "n < 10")
    case True
    then show ?thesis using digit_char_no_slash [of n] by (auto simp: dec_small)
  next
    case False
    then show ?thesis
      using 1 digit_char_no_slash [of "n mod 10"] by (auto simp: dec_step)
  qed
qed

lemma dec_nonempty: "dec n \<noteq> []"
  by (subst dec.simps) simp

lemma frame_name_no_slash: "CHR ''/'' \<notin> set (frame_name j)"
  using dec_no_slash by (auto simp: frame_name_def format_04d_def zfill_def)

lemma basename_append:
  assumes "CHR ''/'' \<notin> set b" and "pre = [] \<or> last pre = CHR ''/''"
  shows "basename (pre @ b) = b"
proof (cases "pre = []")
  case True
  have "\<forall>x\<in>set (rev b). x \<noteq> CHR ''/''"
    using assms(1) by auto
  then have tw: "takeWhile (\<lambda>c. c \<noteq> CHR ''/'') (rev b) = rev b"
    by (rule takeWhile_eq_all_conv [THEN iffD2])
  show ?thesis
    by (simp only: basename_def True append_Nil tw rev_rev_ident)
next
  case False
  then have "pre = butlast pre @ [CHR ''/'']"
    using assms(2) by (metis append_butlast_last_id)
  then have r: "rev pre = CHR ''/'' # rev (butlast pre)"
    by (metis rev.simps(2) rev_rev_ident rev_swap rev.simps(1) append_Nil)
  have "takeWhile (\<lambda>c. c \<noteq> CHR ''/'') (rev b @ rev pre)
      = rev b @ takeWhile (\<lambda>c. c \<noteq> CHR ''/'') (rev pre)"
    using assms(1) by (intro takeWhile_append2) auto
  then show ?thesis by (simp add: basename_def r)
qed

lemma basename_path_join:
  assumes "CHR ''/'' \<notin> set b"
  shows "basename (path_join a b) = b"
proof -
  have hd: "\<not> (b \<noteq> [] \<and> hd b = CHR ''/'')"
    using assms by (cases b) auto
  have 1: "basename (a @ b) = b" if "a = [] \<or> last a = CHR ''/''"
    using assms that by (rule basename_append)
  have 2: "basename ((a @ ''/'') @ b) = b"
    using assms by (rule basename_append) simp
  show ?thesis
    using hd 1 2 unfolding path_join_def by (auto simp del: hd_append2)
qed

lemma basename_frame_path: "basename (path_join out (frame_name j)) = frame_name j"
  by (rule basename_path_join) (rule frame_name_no_slash)


lemma div_div_10:
  fixes n :: nat
  shows "n div 10 div 10 = n div 100" and "n div 10 div 100 = n div 1000"
  using div_mult2_eq [of n 10 10] div_mult2_eq [of n 10 100] by simp_all

lemma dec2: "10 \<le> n \<Longrightarrow> n < 100 \<Longrightarrow> dec n = [digit_char (n div 10), digit_char (n mod 10)]"
  by (simp add: dec_step [of n] dec_small [of "n div 10"])

lemma dec3:
  assumes "100 \<le> n" and "n < 1000"
  shows "dec n = [digit_char (n div 100), digit_char (n div 10 mod 10), digit_char (n mod 10)]"
proof -
  have "10 \<le> n" "10 \<le> n div 10" "n div 10 < 100" using assms by simp_all
  then show ?thesis
    by (simp add: dec_step [of n] dec2 [of "n div 10"] div_div_10)
qed

lemma dec4:
  assumes "1000 \<le> n" and "n < 10000"
  shows "dec n = [digit_char (n div 1000), digit_char (n div 100 mod 10),
     digit_char (n div 10 mod 10), digit_char (n mod 10)]"
proof -
  have "10 \<le> n" "100 \<le> n div 10" "n div 10 < 1000" using assms by simp_all
  then show ?thesis
    by (simp add: dec_step [of n] dec3 [of "n div 10"] div_div_10)
qed

lemma format_small:
  assumes "n < 10000"
  shows "format_04d (int n) =
     [digit_char (n div 1000), digit_char (n div 100 mod 10),
      digit_char (n div 10 mod 10), digit_char (n mod 10)]"
proof -
  consider "n < 10" | "10 \<le> n" "n < 100" | "100 \<le> n" "n < 1000" | "1000 \<le> n"
    by linarith
  then have "zfill 4 (dec n) =
     [digit_char (n div 1000), digit_char (n div 100 mod 10),
      digit_char (n div 10 mod 10), digit_char (n mod 10)]"
  proof cases
    case 1
    then show ?thesis by (simp add: dec_small zfill_def digit_char_0 numeral_3_eq_3 numeral_2_eq_2)
  next
    case 2
    then show ?thesis by (simp add: dec2 zfill_def digit_char_0 numeral_3_eq_3 numeral_2_eq_2)
  next
    case 3
    then show ?thesis by (simp add: dec3 zfill_def digit_char_0 numeral_3_eq_3 numeral_2_eq_2)
  next
    case 4
    then show ?thesis using assms by (simp add: dec4 zfill_def)
  qed
  then show ?thesis by (simp add: format_04d_def)
qed


lemma digits_expand:
  fixes n :: nat
  shows "n = 1000 * (n div 1000) + 100 * (n div 100 mod 10) + 10 * (n div 10 mod 10) + n mod 10"
proof -
  have a: "n = 10 * (n div 10) + n mod 10" by simp
  have b: "n div 10 = 10 * (n div 100) + n div 10 mod 10"
    using div_mult_mod_eq [of "n div 10" 10] by (simp add: div_div_10)
  have c: "n div 100 = 10 * (n div 1000) + n div 100 mod 10"
    using div_mult_mod_eq [of "n div 100" 10] div_mult2_eq [of n 100 10] by simp
  show ?thesis using a b c by linarith
qed

lemma lex_digits:
  fixes a b c d a' b' c' d' :: nat
  assumes "1000 * a + 100 * b + 10 * c + d < 1000 * a' + 100 * b' + 10 * c' + d'"
    and "b < 10" "c < 10" "d < 10" "b' < 10" "c' < 10" "d' < 10"
  shows "a < a' \<or> a = a' \<and> (b < b' \<or> b = b' \<and> (c < c' \<or> c = c' \<and> d < d'))"
proof -
  let ?n = "1000 * a + 100 * b + 10 * c + d" and ?n' = "1000 * a' + 100 * b' + 10 * c' + d'"
  have 1: "\<not> a' < a" using assms by linarith
  have 2: "\<not> b' < b" if "a = a'" using assms that by linarith
  have 3: "\<not> c' < c" if "a = a'" "b = b'" using assms that by linarith
  have 4: "d < d'" if "a = a'" "b = b'" "c = c'" using assms that by linarith
  show ?thesis using 1 2 3 4 by (meson linorder_neqE_nat)
qed

lemma format_small_less:
  assumes "i < j" and "j < 10000"
  shows "format_04d (int i) < format_04d (int j)"
proof -
  have i: "i < 10000" using assms by simp
  have b: "i div 1000 < 10" "j div 1000 < 10" using i assms(2) by simp_all
  have "1000 * (i div 1000) + 100 * (i div 100 mod 10) + 10 * (i div 10 mod 10) + i mod 10
      < 1000 * (j div 1000) + 100 * (j div 100 mod 10) + 10 * (j div 10 mod 10) + j mod 10"
    using assms(1) digits_expand [of i] digits_expand [of j] by simp
  then have "i div 1000 < j div 1000
      \<or> i div 1000 = j div 1000 \<and> (i div 100 mod 10 < j div 100 mod 10
      \<or> i div 100 mod 10 = j div 100 mod 10 \<and> (i div 10 mod 10 < j div 10 mod 10
      \<or> i div 10 mod 10 = j div 10 mod 10 \<and> i mod 10 < j mod 10))"
    by (rule lex_digits) simp_all
  then show ?thesis
    using b by (simp add: format_small [OF i] format_small [OF assms(2)] Cons_less_Cons
        digit_char_less digit_char_eq)
qed

lemma append_less_same_length:
  fixes xs ys :: "'a::order list"
  assumes "xs < ys" and "length xs = length ys"
  shows "xs @ zs < ys @ zs"
  using assms(2,1)
  by (induction xs ys rule: list_induct2) (auto simp: Cons_less_Cons)

lemma frame_name_small_less:
  assumes "i < j" and "j < 10000"
  shows "frame_name (int i) < frame_name (int j)"
proof -
  have "format_04d (int i) < format_04d (int j)"
    using assms by (rule format_small_less)
  moreover have "length (format_04d (int i)) = length (format_04d (int j))"
    using assms by (simp add: format_small)
  ultimately have "format_04d (int i) @ ''.jpg'' < format_04d (int j) @ ''.jpg''"
    by (rule append_less_same_length)
  then show ?thesis by (simp add: frame_name_def Cons_less_Cons)
qed

lemma format_10000:
  "format_04d 10000 = [digit_char 1, digit_char 0, digit_char 0, digit_char 0, digit_char 0]"
proof -
  have "dec 10000 = dec 1000 @ [digit_char 0]"
    using dec_step [of 10000] by simp
  then show ?thesis
    using dec4 [of 1000] by (simp add: format_04d_def zfill_def)
qed

lemma frame_name_10000: "frame_name 10000 < frame_name 9999"
proof -
  have "format_04d 9999 = [digit_char 9, digit_char 9, digit_char 9, digit_char 9]"
    using format_small [of 9999] by simp
  then show ?thesis
    by (simp add: frame_name_def format_10000 Cons_less_Cons digit_char_less)
qed

subsection \<open>The names of the files written\<close>

lemma saved_paths:
  assumes "\<forall>p f. imwrite w p f = ReturnsTrue"
  shows "map fst (saved w out si ys)
     = map (\<lambda>j. path_join out (frame_name (si + int j))) [0..<length ys]"
  by (simp add: saved_all [OF assms] del: upt_Suc)

lemma saved_basenames:
  assumes "\<forall>p f. imwrite w p f = ReturnsTrue"
  shows "map (basename \<circ> fst) (saved w out si ys)
     = map (\<lambda>j. frame_name (si + int j)) [0..<length ys]"
proof -
  have "map (basename \<circ> fst) (saved w out si ys) = map basename (map fst (saved w out si ys))"
    by simp
  also have "\<dots> = map (\<lambda>j. frame_name (si + int j)) [0..<length ys]"
    unfolding saved_paths [OF assms] by (simp add: basename_frame_path del: upt_Suc)
  finally show ?thesis .
qed

lemma sorted_names_iff:
  "sorted_wrt (<) (map (\<lambda>j. frame_name (int j)) [0..<m]) \<longleftrightarrow> m \<le> 10000"
proof
  assume s: "sorted_wrt (<) (map (\<lambda>j. frame_name (int j)) [0..<m])"
  show "m \<le> 10000"
  proof (rule ccontr)
    assume "\<not> m \<le> 10000"
    then have m: "10000 < m" by simp
    have "map (\<lambda>j. frame_name (int j)) [0..<m] ! 9999 < map (\<lambda>j. frame_name (int j)) [0..<m] ! 10000"
      using m by (intro sorted_wrt_nth_less [OF s]) simp_all
    then have "frame_name 9999 < frame_name 10000"
      using m by simp
    then show False using frame_name_10000 by (simp add: less_asym)
  qed
next
  assume m: "m \<le> 10000"
  show "sorted_wrt (<) (map (\<lambda>j. frame_name (int j)) [0..<m])"
    unfolding sorted_wrt_iff_nth_less
  proof (intro allI impI)
    fix i j
    assume "i < j" and "j < length (map (\<lambda>j. frame_name (int j)) [0..<m])"
    then have "j < 10000" "i < m" "j < m" using m by simp_all
    then show "map (\<lambda>j. frame_name (int j)) [0..<m] ! i < map (\<lambda>j. frame_name (int j)) [0..<m] ! j"
      using \<open>i < j\<close> by (simp add: frame_name_small_less)
  qed
qed

lemma dec_long:
  assumes "10000 \<le> n"
  shows "4 < length (dec n)"
proof -
  have a: "10 \<le> n" "10 \<le> n div 10" "10 \<le> n div 10 div 10" "10 \<le> n div 10 div 10 div 10"
    using assms by simp_all
  have "0 < length (dec (n div 10 div 10 div 10 div 10))"
    using dec_nonempty by simp
  then show ?thesis
    using dec_step [OF a(1)] dec_step [OF a(2)] dec_step [OF a(3)] dec_step [OF a(4)] by simp
qed

lemma format_width:
  "4 \<le> length (format_04d (int j)) \<and> (length (format_04d (int j)) = 4 \<longleftrightarrow> j < 10000)"
proof (cases "j < 10000")
  case True
  then show ?thesis by (simp add: format_small)
next
  case False
  then have "4 < length (dec j)" by (intro dec_long) simp
  then show ?thesis using False by (simp add: format_04d_def zfill_def)
qed

lemma extract_frames_success:
  assumes "fst (extract_frames w vp out T s) = Inr n"
  shows "isOpened (VideoCapture w vp) \<and> CAP_PROP_FPS (VideoCapture w vp) \<noteq> Finite 0
    \<and> (\<exists>k. frame_interval_of (CAP_PROP_FPS (VideoCapture w vp)) T = Inr k)
    \<and> makedirs_ok w out"
  using assms
  by (auto simp: extract_frames_def Let_def py_eq_zero_def split: if_splits sum.splits)

text \<open>
  Claim C6, as amended. After a successful call in which every write succeeded, into a
  directory that held no file, the files written are, in the order of writing, those
  of the indices 0, 1, 2 and so on; a name is \<open>frame_\<close>, the index in decimal padded with
  zeros to four digits (exactly four up to 9999, more from 10000 on) and \<open>.jpg\<close>. The
  lexical order of the names is the order of writing exactly when at most 10000 frames
  were saved.
\<close>

theorem frame_names_order:
  assumes "fst (extract_frames w video_path output_folder T s) = Inr n"
    and "\<forall>p f. imwrite w p f = ReturnsTrue"
    and "files s = []"
  shows "map fst (files (snd (extract_frames w video_path output_folder T s)))
        = map (\<lambda>j. path_join output_folder (frame_name (int j))) [0..<nat n]
    \<and> map (basename \<circ> fst) (files (snd (extract_frames w video_path output_folder T s)))
        = map (\<lambda>j. frame_name (int j)) [0..<nat n]
    \<and> (\<forall>j. frame_name (int j) = ''frame_'' @ format_04d (int j) @ ''.jpg''
          \<and> format_04d (int j) = replicate (4 - length (dec j)) (CHR ''0'') @ dec j)
    \<and> (\<forall>j. 4 \<le> length (format_04d (int j))
          \<and> (length (format_04d (int j)) = 4 \<longleftrightarrow> j < 10000))
    \<and> (sorted_wrt (<) (map (basename \<circ> fst) (files (snd (extract_frames w video_path output_folder T s))))
          \<longleftrightarrow> n \<le> 10000)"
proof -
  let ?c = "VideoCapture w video_path"
  from extract_frames_success [OF assms(1)]
  obtain k where op: "isOpened ?c" and nz: "CAP_PROP_FPS ?c \<noteq> Finite 0"
    and k: "frame_interval_of (CAP_PROP_FPS ?c) T = Inr k" and mk: "makedirs_ok w output_folder"
    by blast
  have wr: "\<forall>p f. imwrite w p f \<noteq> Raises" using assms(2) by simp
  note run = extract_frames_run [OF op nz k mk wr, of s]
  let ?ys = "select k 0 (frames ?c)"
  have n: "nat n = length ?ys" using assms(1) by (auto simp: run)
  have a: "map fst (files (snd (extract_frames w video_path output_folder T s)))
        = map (\<lambda>j. path_join output_folder (frame_name (int j))) [0..<nat n]"
    using saved_paths [OF assms(2), of output_folder 0 ?ys]
    by (simp add: run assms(3) n del: upt_Suc)
  have b: "map (basename \<circ> fst) (files (snd (extract_frames w video_path output_folder T s)))
        = map (\<lambda>j. frame_name (int j)) [0..<nat n]"
    using saved_basenames [OF assms(2), of output_folder 0 ?ys]
    by (simp add: run assms(3) n del: upt_Suc)
  have c: "\<forall>j. frame_name (int j) = ''frame_'' @ format_04d (int j) @ ''.jpg''
          \<and> format_04d (int j) = replicate (4 - length (dec j)) (CHR ''0'') @ dec j"
    by (simp add: frame_name_def format_04d_def zfill_def)
  have "0 \<le> n" using assms(1) by (auto simp: run)
  then have d: "sorted_wrt (<) (map (basename \<circ> fst) (files (snd (extract_frames w video_path output_folder T s))))
          \<longleftrightarrow> n \<le> 10000"
    unfolding b sorted_names_iff by linarith
  show ?thesis using a b c d format_width by blast
qed

theorem frame_names_order_witness:
  "map (basename \<circ> fst)
     (files (snd (extract_frames (sample_world (Finite 30) 3 ReturnsTrue) ''v.mp4'' ''out'' 30 (fresh {} []))))
     = [''frame_0000.jpg'', ''frame_0001.jpg'', ''frame_0002.jpg'']
   \<and> sorted_wrt (<) [''frame_0000.jpg'', ''frame_0001.jpg'', ''frame_0002.jpg'']"
proof -
  have r: "fst (extract_frames (sample_world (Finite 30) 3 ReturnsTrue) ''v.mp4'' ''out'' 30 (fresh {} []))
      = Inr 3"
    by (simp add: extract_frames_def sample_world_def fresh_def py_eq_zero_def
        frame_interval_30_30 upt_rec numeral_3_eq_3)
  have names: "frame_name 0 = ''frame_0000.jpg''" "frame_name 1 = ''frame_0001.jpg''"
    "frame_name 2 = ''frame_0002.jpg''"
    by code_simp+
  have u: "[0..<3] = [0, 1, 2]"
    by code_simp
  have o: "sorted_wrt (<) [''frame_0000.jpg'', ''frame_0001.jpg'', ''frame_0002.jpg'']"
    by code_simp
  show ?thesis
    using frame_names_order [OF r] o
    by (simp add: sample_world_def fresh_def names u)
qed

text \<open>
  The claim as stated extends the order to counts above 10000. The file of index 10000
  is written after the file of index 9999 and its name sorts before it, so the names of
  10001 saved frames are not in lexical order.
\<close>

theorem frame_names_order_fails:
  "frame_name 10000 < frame_name 9999
   \<and> \<not> sorted_wrt (<) (map (frame_name \<circ> int) [0..<10001])"
proof -
  have e: "frame_name \<circ> int = (\<lambda>j. frame_name (int j))"
    by (simp add: o_def)
  have "\<not> sorted_wrt (<) (map (\<lambda>j. frame_name (int j)) [0..<10001])"
    unfolding sorted_names_iff by simp
  then show ?thesis
    unfolding e using frame_name_10000 by blast
qed

subsection \<open>Two runs on the same input\<close>

text \<open>
  Claim C9. Two runs on the same frames, the same reported rate and the same target
  rate, each into a directory that can be created and holds no file, with every write
  succeeding, return the same result and produce the same file names, whatever the two
  video paths and the two output folders are.
\<close>

theorem extract_frames_deterministic:
  assumes "isOpened (VideoCapture w1 video_path1) = isOpened (VideoCapture w2 video_path2)"
    and "CAP_PROP_FPS (VideoCapture w1 video_path1) = CAP_PROP_FPS (VideoCapture w2 video_path2)"
    and "frames (VideoCapture w1 video_path1) = frames (VideoCapture w2 video_path2)"
    and "makedirs_ok w1 output_folder1" and "makedirs_ok w2 output_folder2"
    and "\<forall>p f. imwrite w1 p f = ReturnsTrue" and "\<forall>p f. imwrite w2 p f = ReturnsTrue"
    and "files s1 = []" and "files s2 = []"
  shows "fst (extract_frames w1 video_path1 output_folder1 T s1)
        = fst (extract_frames w2 video_path2 output_folder2 T s2)
    \<and> map (basename \<circ> fst) (files (snd (extract_frames w1 video_path1 output_folder1 T s1)))
        = map (basename \<circ> fst) (files (snd (extract_frames w2 video_path2 output_folder2 T s2)))
    \<and> (basename \<circ> fst) ` set (files (snd (extract_frames w1 video_path1 output_folder1 T s1)))
        = (basename \<circ> fst) ` set (files (snd (extract_frames w2 video_path2 output_folder2 T s2)))"
proof -
  let ?c1 = "VideoCapture w1 video_path1" and ?c2 = "VideoCapture w2 video_path2"
  let ?r1 = "extract_frames w1 video_path1 output_folder1 T s1"
  let ?r2 = "extract_frames w2 video_path2 output_folder2 T s2"
  have ab: "fst ?r1 = fst ?r2
    \<and> map (basename \<circ> fst) (files (snd ?r1)) = map (basename \<circ> fst) (files (snd ?r2))"
  proof (cases "isOpened ?c1 \<and> CAP_PROP_FPS ?c1 \<noteq> Finite 0")
    case False
    then show ?thesis
      using assms(1,2,8,9) by (auto simp: extract_frames_def Let_def py_eq_zero_def)
  next
    case go: True
    then have go2: "isOpened ?c2 \<and> CAP_PROP_FPS ?c2 \<noteq> Finite 0"
      using assms(1,2) by simp
    show ?thesis
    proof (cases "frame_interval_of (CAP_PROP_FPS ?c1) T")
      case (Inl e)
      then show ?thesis
        using go go2 assms(2,8,9) by (simp add: extract_frames_def Let_def py_eq_zero_def)
    next
      case (Inr k)
      then have k2: "frame_interval_of (CAP_PROP_FPS ?c2) T = Inr k"
        using assms(2) by simp
      have wr1: "\<forall>p f. imwrite w1 p f \<noteq> Raises" using assms(6) by simp
      have wr2: "\<forall>p f. imwrite w2 p f \<noteq> Raises" using assms(7) by simp
      note run1 = extract_frames_run [OF conjunct1 [OF go] conjunct2 [OF go] Inr assms(4) wr1, of s1]
      note run2 = extract_frames_run [OF conjunct1 [OF go2] conjunct2 [OF go2] k2 assms(5) wr2, of s2]
      show ?thesis
        by (simp add: run1 run2 assms(3,8,9) saved_basenames [OF assms(6)]
            saved_basenames [OF assms(7)] del: upt_Suc)
    qed
  qed
  then have m: "map (basename \<circ> fst) (files (snd ?r1)) = map (basename \<circ> fst) (files (snd ?r2))"
    by blast
  have "(basename \<circ> fst) ` set (files (snd ?r1)) = set (map (basename \<circ> fst) (files (snd ?r1)))"
    by (simp only: set_map)
  also have "\<dots> = set (map (basename \<circ> fst) (files (snd ?r2)))"
    by (simp only: m)
  also have "\<dots> = (basename \<circ> fst) ` set (files (snd ?r2))"
    by (simp only: set_map)
  finally show ?thesis using ab by blast
qed

theorem extract_frames_deterministic_witness:
  "fst (extract_frames (sample_world (Finite 30) 3 ReturnsTrue) ''a.mp4'' ''/tmp/frames_a'' 30 (fresh {} []))
     = fst (extract_frames (sample_world (Finite 30) 3 ReturnsTrue) ''b.mp4'' ''out/'' 30 (fresh {''out/''} []))
   \<and> map (basename \<circ> fst)
       (files (snd (extract_frames (sample_world (Finite 30) 3 ReturnsTrue) ''a.mp4'' ''/tmp/frames_a'' 30 (fresh {} []))))
     = map (basename \<circ> fst)
       (files (snd (extract_frames (sample_world (Finite 30) 3 ReturnsTrue) ''b.mp4'' ''out/'' 30 (fresh {''out/''} []))))"
  using extract_frames_deterministic [of "sample_world (Finite 30) 3 ReturnsTrue" "''a.mp4''"
      "sample_world (Finite 30) 3 ReturnsTrue" "''b.mp4''" "''/tmp/frames_a''" "''out/''"
      "fresh {} []" "fresh {''out/''} []" 30]
  by (simp add: sample_world_def fresh_def)

end
